theory Spec2Isabelle
  imports Main
begin

section \<open>Machine arithmetic of VLVector.hpp\<close>

text \<open>
  The container counts in \<open>size_t\<close>, taken here as the 64-bit unsigned type of an LP64
  platform, and the growth policy receives the static capacity as a 32-bit \<open>int\<close>.
  Values of \<open>size_t\<close> are natural numbers below \<open>2 ^ 64\<close>; every operation of the
  source that can leave that range is written with its wrap-around.
\<close>

definition size_t_plus :: "nat \<Rightarrow> nat \<Rightarrow> nat" where
  "size_t_plus a b = (a + b) mod 2 ^ 64"

definition size_t_minus :: "nat \<Rightarrow> nat \<Rightarrow> nat" where
  "size_t_minus a b = (if b \<le> a then a - b else (a + 2 ^ 64 - b) mod 2 ^ 64)"

definition int_of_ulong :: "nat \<Rightarrow> int" where
  \<comment> \<open>the conversion of the template argument (unsigned long) to the parameter \<open>int stat\<close>\<close>
  "int_of_ulong n = (let m = int n mod 2 ^ 32 in if m < 2 ^ 31 then m else m - 2 ^ 32)"

definition size_t_of_int :: "int \<Rightarrow> nat" where
  \<comment> \<open>the cast \<open>(size_t) stat\<close>, and the conversion of \<open>return stat\<close>\<close>
  "size_t_of_int i = nat (i mod 2 ^ 64)"

definition capfunc :: "nat \<Rightarrow> int \<Rightarrow> nat \<Rightarrow> nat" where
  "capfunc s stat nowCap =
     (if s \<le> size_t_of_int stat then size_t_of_int stat
      else if s \<le> nowCap then nowCap
      else (3 * s mod 2 ^ 64) div 2)"

section \<open>Memory: buffers, pointers and std::copy\<close>

text \<open>
  A buffer is a list of slots; a slot holds a value or is indeterminate (\<open>None\<close>), as the
  slots of \<open>new T[n]\<close> and of a local array are before they are written. Reading or
  writing outside a buffer is undefined behaviour in C++; the model makes it the error
  value \<open>undefined_behaviour\<close>. The only exception the source throws is
  \<open>std::out_of_range\<close>, which carries its message.
\<close>

datatype error = out_of_range string | undefined_behaviour

type_synonym 'a buf = "'a option list"

definition then_do :: "error + 'a \<Rightarrow> ('a \<Rightarrow> error + 'b) \<Rightarrow> error + 'b" where
  "then_do r f = (case r of Inl e \<Rightarrow> Inl e | Inr x \<Rightarrow> f x)"

definition new_array :: "nat \<Rightarrow> 'a buf" where
  "new_array n = replicate n None"

text \<open>
  \<open>std::copy(src + first, src + last, dst + d)\<close> between two different arrays: the
  forward loop \<open>while (first != last) *d++ = *first++\<close>.
\<close>

function std_copy :: "'a buf \<Rightarrow> nat \<Rightarrow> nat \<Rightarrow> 'a buf \<Rightarrow> nat \<Rightarrow> error + 'a buf" where
  "std_copy src first last_it dst d =
     (if first = last_it then Inr dst
      else if first < last_it \<and> first < length src \<and> d < length dst
      then std_copy src (Suc first) last_it (dst[d := src ! first]) (Suc d)
      else Inl undefined_behaviour)"
  by pat_completeness auto
termination
  by (relation "measure (\<lambda>(src, first, last_it, dst, d). last_it - first)") auto

text \<open>The same loop when source and destination lie in one array: each step reads the
  array as the steps before it left it. \<open>erase\<close> calls it with the destination at or
  before the start of the source range, where the loop moves the range to the left.\<close>

function std_copy_within :: "'a buf \<Rightarrow> nat \<Rightarrow> nat \<Rightarrow> nat \<Rightarrow> error + 'a buf" where
  "std_copy_within b first last_it d =
     (if first = last_it then Inr b
      else if first < last_it \<and> first < length b \<and> d < length b
      then std_copy_within (b[d := b ! first]) (Suc first) last_it (Suc d)
      else Inl undefined_behaviour)"
  by pat_completeness auto
termination
  by (relation "measure (\<lambda>(b, first, last_it, d). last_it - first)") auto

definition store_at :: "'a buf \<Rightarrow> nat \<Rightarrow> 'a \<Rightarrow> error + 'a buf" where
  \<comment> \<open>the assignment \<open>arr[i] = x\<close>\<close>
  "store_at b i x = (if i < length b then Inr (b[i := Some x]) else Inl undefined_behaviour)"

section \<open>The container\<close>

text \<open>
  The template parameter \<open>StaticCapacity\<close> is the argument \<open>N\<close> of every operation.
  \<open>heapArr\<close> is \<open>None\<close> when it is the null pointer; the container owns the array it
  points to, so the array is stored in the field.
\<close>

record 'a vlvector =
  vl_size :: nat
  vl_capacity :: nat
  heapArr :: "'a buf option"
  stackArr :: "'a buf"

definition VLVector :: "nat \<Rightarrow> 'a vlvector" where
  "VLVector N = \<lparr>vl_size = 0, vl_capacity = N, heapArr = None, stackArr = new_array N\<rparr>"

definition heap_buf :: "'a vlvector \<Rightarrow> 'a buf" where
  \<comment> \<open>the slots that may be reached through \<open>heapArr\<close>: none through the null pointer\<close>
  "heap_buf v = (case heapArr v of None \<Rightarrow> [] | Some h \<Rightarrow> h)"

text \<open>An iterator is a \<open>T*\<close>: the array of the container it points into, and the offset.\<close>

datatype region = Stack | Heap

type_synonym ptr = "region \<times> nat"

definition region_buf :: "'a vlvector \<Rightarrow> region \<Rightarrow> 'a buf" where
  "region_buf v r = (case r of Stack \<Rightarrow> stackArr v | Heap \<Rightarrow> heap_buf v)"

definition set_region :: "'a vlvector \<Rightarrow> region \<Rightarrow> 'a buf \<Rightarrow> 'a vlvector" where
  \<comment> \<open>the array of region \<open>r\<close> after writes through a pointer into it\<close>
  "set_region v r b =
     (case r of Stack \<Rightarrow> v\<lparr>stackArr := b\<rparr>
      | Heap \<Rightarrow> v\<lparr>heapArr := map_option (\<lambda>_. b) (heapArr v)\<rparr>)"

definition ptr_add :: "ptr \<Rightarrow> nat \<Rightarrow> ptr" where
  "ptr_add p n = (fst p, snd p + n)"

definition ptr_diff :: "ptr \<Rightarrow> ptr \<Rightarrow> error + nat" where
  \<comment> \<open>\<open>p - q\<close> stored in a \<open>size_t\<close>; pointers into different arrays have no difference\<close>
  "ptr_diff p q =
     (if fst p = fst q then Inr (size_t_minus (snd p) (snd q)) else Inl undefined_behaviour)"

definition begin_it :: "nat \<Rightarrow> 'a vlvector \<Rightarrow> ptr" where
  "begin_it N v = (if vl_capacity v > N then (Heap, 0) else (Stack, 0))"

definition end_it :: "nat \<Rightarrow> 'a vlvector \<Rightarrow> ptr" where
  "end_it N v = ptr_add (begin_it N v) (vl_size v)"

definition data :: "nat \<Rightarrow> 'a vlvector \<Rightarrow> 'a buf" where
  \<comment> \<open>the array \<open>data()\<close> points to\<close>
  "data N v = (if vl_capacity v > N then heap_buf v else stackArr v)"

definition capacity :: "'a vlvector \<Rightarrow> nat" where
  "capacity v = vl_capacity v"

definition copy_out :: "'a vlvector \<Rightarrow> ptr \<Rightarrow> ptr \<Rightarrow> 'a buf \<Rightarrow> nat \<Rightarrow> error + 'a buf" where
  \<comment> \<open>\<open>std::copy(first, last, dst + d)\<close> from the container's memory into another array\<close>
  "copy_out v first last_it dst d =
     (if fst first = fst last_it
      then std_copy (region_buf v (fst first)) (snd first) (snd last_it) dst d
      else Inl undefined_behaviour)"

definition copy_in :: "'a vlvector \<Rightarrow> ptr \<Rightarrow> ptr \<Rightarrow> ptr \<Rightarrow> error + 'a vlvector" where
  \<comment> \<open>\<open>std::copy(first, last, d)\<close> with all three pointers into the container's memory\<close>
  "copy_in v first last_it d =
     (if fst first \<noteq> fst last_it then Inl undefined_behaviour
      else if fst d = fst first
      then then_do (std_copy_within (region_buf v (fst first)) (snd first) (snd last_it) (snd d))
             (\<lambda>b. Inr (set_region v (fst d) b))
      else then_do (std_copy (region_buf v (fst first)) (snd first) (snd last_it)
                      (region_buf v (fst d)) (snd d))
             (\<lambda>b. Inr (set_region v (fst d) b)))"

subsection \<open>The storage-transition engine \<open>_reCap\<close>\<close>

text \<open>
  \<open>_reCap\<close> is read in two steps. \<open>reCap_plan\<close> is its chain of conditions: which
  transition is taken, with the capacity it allocates and the number of elements its
  \<open>std::copy\<close> is given. \<open>reCap\<close> carries the transition out.
\<close>

datatype copy_plan =
    NoCopy
  | StackToHeap nat nat
  | HeapToHeap nat nat
  | HeapToStack nat

definition reCap_plan :: "nat \<Rightarrow> 'a vlvector \<Rightarrow> nat \<Rightarrow> copy_plan" where
  "reCap_plan N v prevSize =
     (if vl_size v \<le> vl_capacity v \<and> vl_size v > N then NoCopy
      else if vl_capacity v = N then
        (if vl_size v \<le> vl_capacity v then NoCopy
         else StackToHeap (capfunc (vl_size v) (int_of_ulong N) (vl_capacity v)) prevSize)
      else if vl_capacity v > N then
        (if vl_size v \<ge> vl_capacity v
         then HeapToHeap (capfunc (vl_size v) (int_of_ulong N) (vl_capacity v)) prevSize
         else if vl_size v \<le> N then HeapToStack (vl_size v)
         else NoCopy)
      else NoCopy)"

definition reCap :: "nat \<Rightarrow> 'a vlvector \<Rightarrow> nat \<Rightarrow> error + 'a vlvector" where
  "reCap N v prevSize =
     (case reCap_plan N v prevSize of
        NoCopy \<Rightarrow> Inr v
      | StackToHeap newCap n \<Rightarrow>
          then_do (std_copy (stackArr v) 0 n (new_array newCap) 0)
            (\<lambda>h. Inr (v\<lparr>heapArr := Some h, vl_capacity := newCap\<rparr>))
      | HeapToHeap newCap n \<Rightarrow>
          then_do (std_copy (heap_buf v) 0 n (new_array newCap) 0)
            (\<lambda>newArr. Inr (v\<lparr>vl_capacity := newCap, heapArr := Some newArr\<rparr>))
      | HeapToStack n \<Rightarrow>
          then_do (std_copy (heap_buf v) 0 n (stackArr v) 0)
            (\<lambda>s. Inr (v\<lparr>vl_capacity := N, stackArr := s, heapArr := None\<rparr>)))"

definition copy_count :: "copy_plan \<Rightarrow> nat option" where
  "copy_count p =
     (case p of NoCopy \<Rightarrow> None | StackToHeap c n \<Rightarrow> Some n
      | HeapToHeap c n \<Rightarrow> Some n | HeapToStack n \<Rightarrow> Some n)"

subsection \<open>push_back, pop_back, clear\<close>

text \<open>Each of the three updates \<open>_size\<close> and then calls \<open>_reCap\<close>; the \<open>_call\<close>
  definitions are the container and the argument of that call.\<close>

definition push_back_call :: "'a vlvector \<Rightarrow> 'a vlvector \<times> nat" where
  "push_back_call v =
     (let v1 = v\<lparr>vl_size := size_t_plus (vl_size v) 1\<rparr> in (v1, size_t_minus (vl_size v1) 1))"

definition push_back :: "nat \<Rightarrow> 'a vlvector \<Rightarrow> 'a \<Rightarrow> error + 'a vlvector" where
  "push_back N v add =
     (case push_back_call v of (v1, prevSize) \<Rightarrow>
        then_do (reCap N v1 prevSize) (\<lambda>v2.
          if vl_capacity v2 > N
          then then_do (store_at (heap_buf v2) (size_t_minus (vl_size v2) 1) add)
                 (\<lambda>h. Inr (set_region v2 Heap h))
          else then_do (store_at (stackArr v2) (size_t_minus (vl_size v2) 1) add)
                 (\<lambda>s. Inr (set_region v2 Stack s))))"

definition pop_back_call :: "'a vlvector \<Rightarrow> 'a vlvector \<times> nat" where
  "pop_back_call v =
     (let v1 = v\<lparr>vl_size := size_t_minus (vl_size v) 1\<rparr> in (v1, size_t_plus (vl_size v1) 1))"

definition pop_back :: "nat \<Rightarrow> 'a vlvector \<Rightarrow> error + 'a vlvector" where
  "pop_back N v =
     (if vl_size v = 0 then Inr v
      else case pop_back_call v of (v1, prevSize) \<Rightarrow> reCap N v1 prevSize)"

definition clear_call :: "'a vlvector \<Rightarrow> 'a vlvector \<times> nat" where
  "clear_call v = (let preSize = vl_size v in (v\<lparr>vl_size := 0\<rparr>, preSize))"

definition clear :: "nat \<Rightarrow> 'a vlvector \<Rightarrow> error + 'a vlvector" where
  "clear N v =
     (if vl_size v = 0 then Inr v
      else case clear_call v of (v1, preSize) \<Rightarrow> reCap N v1 preSize)"

subsection \<open>Constructors from a range and from another container\<close>

text \<open>
  \<open>VLVector(first, last)\<close> replays \<open>push_back\<close> over the range; the range of an input
  iterator is the list of the values it yields. The copy constructor passes
  \<open>other.begin()\<close> and \<open>other.end()\<close>, so it reads the slots of \<open>other\<close> up to its size.
\<close>

fun push_all :: "nat \<Rightarrow> 'a vlvector \<Rightarrow> 'a list \<Rightarrow> error + 'a vlvector" where
  "push_all N v [] = Inr v"
| "push_all N v (x # xs) = then_do (push_back N v x) (\<lambda>v'. push_all N v' xs)"

definition VLVector_range :: "nat \<Rightarrow> 'a list \<Rightarrow> error + 'a vlvector" where
  "VLVector_range N xs = push_all N (VLVector N) xs"

definition read_range :: "'a vlvector \<Rightarrow> ptr \<Rightarrow> ptr \<Rightarrow> error + 'a list" where
  \<comment> \<open>the values \<open>*in\<close> for \<open>in\<close> from \<open>first\<close> up to \<open>last\<close>\<close>
  "read_range v first last_it =
     (let b = region_buf v (fst first); slots = take (snd last_it - snd first) (drop (snd first) b)
      in if fst first = fst last_it \<and> snd first \<le> snd last_it \<and> snd last_it \<le> length b
            \<and> list_all (\<lambda>s. s \<noteq> None) slots
         then Inr (map the slots) else Inl undefined_behaviour)"

definition VLVector_copy :: "nat \<Rightarrow> 'a vlvector \<Rightarrow> error + 'a vlvector" where
  "VLVector_copy N other =
     then_do (read_range other (begin_it N other) (end_it N other)) (VLVector_range N)"

subsection \<open>Element access\<close>

definition index_op :: "nat \<Rightarrow> 'a vlvector \<Rightarrow> nat \<Rightarrow> error + 'a option" where
  \<comment> \<open>\<open>operator[]\<close>: the slot \<open>heapArr[idx]\<close> or \<open>stackArr[idx]\<close>\<close>
  "index_op N v idx =
     (if vl_capacity v > N
      then (if idx < length (heap_buf v) then Inr (heap_buf v ! idx) else Inl undefined_behaviour)
      else (if idx < length (stackArr v) then Inr (stackArr v ! idx) else Inl undefined_behaviour))"

definition at :: "nat \<Rightarrow> 'a vlvector \<Rightarrow> nat \<Rightarrow> error + 'a option" where
  "at N v idx =
     (if idx < vl_size v then index_op N v idx
      else Inl (out_of_range ''index out of range''))"

subsection \<open>insert\<close>

definition insert_range ::
  "nat \<Rightarrow> 'a vlvector \<Rightarrow> ptr \<Rightarrow> 'a list \<Rightarrow> error + ptr \<times> 'a vlvector" where
  "insert_range N v position xs =
     then_do (VLVector_range N xs) (\<lambda>temp.
     let numAdd = vl_size temp in
     then_do (ptr_diff position (begin_it N v)) (\<lambda>disPos.
     then_do
       (if vl_capacity v > N then
          (let orgSize = vl_size v;
               v1 = v\<lparr>vl_capacity :=
                      capfunc (size_t_plus (vl_size v) numAdd) (int_of_ulong N) (vl_capacity v)\<rparr>;
               v2 = v1\<lparr>vl_size := size_t_plus (vl_size v1) numAdd\<rparr>
           in then_do (copy_out v2 (begin_it N v2) position (new_array (vl_capacity v2)) 0)
                (\<lambda>a1.
              then_do (copy_out temp (begin_it N temp) (end_it N temp) a1 disPos) (\<lambda>a2.
              then_do (copy_out v2 position (ptr_add (begin_it N v2) orgSize) a2
                         (disPos + numAdd)) (\<lambda>newArr.
              Inr (v2\<lparr>heapArr := Some newArr\<rparr>)))))
        else if size_t_plus (vl_size v) numAdd > N then
          (let orgSize = vl_size v;
               v1 = v\<lparr>vl_capacity :=
                      capfunc (size_t_plus (vl_size v) numAdd) (int_of_ulong N) (vl_capacity v)\<rparr>;
               v2 = v1\<lparr>vl_size := size_t_plus (vl_size v1) numAdd\<rparr>
           in then_do (copy_out v2 (Stack, 0) position (new_array (vl_capacity v2)) 0) (\<lambda>a1.
              then_do (copy_out temp (begin_it N temp) (end_it N temp) a1 disPos) (\<lambda>a2.
              then_do (copy_out v2 position (Stack, orgSize) a2 (disPos + numAdd)) (\<lambda>newArr.
              Inr (v2\<lparr>heapArr := Some newArr\<rparr>)))))
        else
          (let orgSize = vl_size v;
               v1 = v\<lparr>vl_size := size_t_plus (vl_size v) numAdd\<rparr>
           in then_do (copy_out v1 (begin_it N v1) (ptr_add (begin_it N v1) orgSize)
                         (new_array N) 0) (\<lambda>newArr.
              then_do (copy_out temp (begin_it N temp) (end_it N temp) (stackArr v1) disPos)
                (\<lambda>s1.
              then_do (std_copy newArr disPos orgSize s1 (disPos + numAdd)) (\<lambda>s2.
              Inr (v1\<lparr>stackArr := s2\<rparr>))))))
       (\<lambda>v'. then_do (clear N temp) (\<lambda>_. Inr (ptr_add (begin_it N v') numAdd, v')))))"

definition insert_one ::
  "nat \<Rightarrow> 'a vlvector \<Rightarrow> ptr \<Rightarrow> 'a \<Rightarrow> error + ptr \<times> 'a vlvector" where
  \<comment> \<open>\<open>insert(position, toAdd)\<close>\<close>
  "insert_one N v position toAdd =
     (let numAdd = 1 in
     then_do (ptr_diff position (begin_it N v)) (\<lambda>disPos.
     then_do
       (if vl_capacity v > N then
          (let orgSize = vl_size v;
               v1 = v\<lparr>vl_capacity :=
                      capfunc (size_t_plus (vl_size v) numAdd) (int_of_ulong N) (vl_capacity v)\<rparr>;
               v2 = v1\<lparr>vl_size := size_t_plus (vl_size v1) numAdd\<rparr>
           in then_do (copy_out v2 (begin_it N v2) position (new_array (vl_capacity v2)) 0)
                (\<lambda>a1.
              then_do (store_at a1 disPos toAdd) (\<lambda>a2.
              then_do (copy_out v2 position (ptr_add (begin_it N v2) orgSize) a2
                         (disPos + numAdd)) (\<lambda>newArr.
              Inr (v2\<lparr>heapArr := Some newArr\<rparr>)))))
        else if size_t_plus (vl_size v) numAdd > N then
          (let orgSize = vl_size v;
               v1 = v\<lparr>vl_capacity :=
                      capfunc (size_t_plus (vl_size v) numAdd) (int_of_ulong N) (vl_capacity v)\<rparr>;
               v2 = v1\<lparr>vl_size := size_t_plus (vl_size v1) numAdd\<rparr>
           in then_do (copy_out v2 (Stack, 0) position (new_array (vl_capacity v2)) 0) (\<lambda>a1.
              then_do (store_at a1 disPos toAdd) (\<lambda>a2.
              then_do (copy_out v2 position (Stack, orgSize) a2 (disPos + numAdd)) (\<lambda>newArr.
              Inr (v2\<lparr>heapArr := Some newArr\<rparr>)))))
        else
          (let orgSize = vl_size v;
               v1 = v\<lparr>vl_size := size_t_plus (vl_size v) numAdd\<rparr>
           in then_do (copy_out v1 (begin_it N v1) (ptr_add (begin_it N v1) orgSize)
                         (new_array N) 0) (\<lambda>newArr.
              then_do (store_at (stackArr v1) disPos toAdd) (\<lambda>s1.
              then_do (std_copy newArr disPos orgSize s1 (disPos + numAdd)) (\<lambda>s2.
              Inr (v1\<lparr>stackArr := s2\<rparr>))))))
       (\<lambda>v'. Inr (ptr_add (begin_it N v') disPos, v'))))"

text \<open>
  The two forms of \<open>insert\<close> repeat one choreography of three branches and differ in
  the step that writes the new elements (a copy from \<open>temp\<close>, or one assignment) and
  in the iterator they return. \<open>insert_branches\<close> is that choreography with the
  writing step as the parameter \<open>put\<close>; it serves the proofs, which show first that each
  form of \<open>insert\<close> is an instance of it.
\<close>

definition insert_branches ::
  "nat \<Rightarrow> 'a vlvector \<Rightarrow> ptr \<Rightarrow> nat \<Rightarrow> nat \<Rightarrow> ('a buf \<Rightarrow> nat \<Rightarrow> error + 'a buf)
   \<Rightarrow> error + 'a vlvector" where
  "insert_branches N v position disPos numAdd put =
     (if vl_capacity v > N then
        (let orgSize = vl_size v;
             v1 = v\<lparr>vl_capacity :=
                    capfunc (size_t_plus (vl_size v) numAdd) (int_of_ulong N) (vl_capacity v)\<rparr>;
             v2 = v1\<lparr>vl_size := size_t_plus (vl_size v1) numAdd\<rparr>
         in then_do (copy_out v2 (begin_it N v2) position (new_array (vl_capacity v2)) 0)
              (\<lambda>a1.
            then_do (put a1 disPos) (\<lambda>a2.
            then_do (copy_out v2 position (ptr_add (begin_it N v2) orgSize) a2
                       (disPos + numAdd)) (\<lambda>newArr.
            Inr (v2\<lparr>heapArr := Some newArr\<rparr>)))))
      else if size_t_plus (vl_size v) numAdd > N then
        (let orgSize = vl_size v;
             v1 = v\<lparr>vl_capacity :=
                    capfunc (size_t_plus (vl_size v) numAdd) (int_of_ulong N) (vl_capacity v)\<rparr>;
             v2 = v1\<lparr>vl_size := size_t_plus (vl_size v1) numAdd\<rparr>
         in then_do (copy_out v2 (Stack, 0) position (new_array (vl_capacity v2)) 0) (\<lambda>a1.
            then_do (put a1 disPos) (\<lambda>a2.
            then_do (copy_out v2 position (Stack, orgSize) a2 (disPos + numAdd)) (\<lambda>newArr.
            Inr (v2\<lparr>heapArr := Some newArr\<rparr>)))))
      else
        (let orgSize = vl_size v;
             v1 = v\<lparr>vl_size := size_t_plus (vl_size v) numAdd\<rparr>
         in then_do (copy_out v1 (begin_it N v1) (ptr_add (begin_it N v1) orgSize)
                       (new_array N) 0) (\<lambda>newArr.
            then_do (put (stackArr v1) disPos) (\<lambda>s1.
            then_do (std_copy newArr disPos orgSize s1 (disPos + numAdd)) (\<lambda>s2.
            Inr (v1\<lparr>stackArr := s2\<rparr>))))))"

subsection \<open>erase\<close>

definition erase ::
  "nat \<Rightarrow> 'a vlvector \<Rightarrow> ptr \<Rightarrow> ptr \<Rightarrow> error + ptr \<times> 'a vlvector" where
  "erase N v first last_it =
     then_do (ptr_diff last_it first) (\<lambda>numSub.
     then_do (ptr_diff first (begin_it N v)) (\<lambda>disFirst.
     then_do
       (if vl_size v \<le> N then
          (let orgSize = vl_size v;
               v1 = v\<lparr>vl_size := size_t_minus (vl_size v) numSub\<rparr>
           in copy_in v1 last_it (ptr_add (begin_it N v1) orgSize) first)
        else if vl_size v > N \<and> size_t_minus (vl_size v) numSub \<le> N then
          then_do (copy_in v (Heap, 0) first (Stack, 0)) (\<lambda>v1.
          then_do (copy_in v1 last_it (end_it N v1) (Stack, disFirst)) (\<lambda>v2.
          Inr (v2\<lparr>vl_capacity := N, vl_size := size_t_minus (vl_size v2) numSub,
                 heapArr := None\<rparr>)))
        else
          then_do (copy_in v last_it (end_it N v) (Heap, disFirst)) (\<lambda>v1.
          Inr (v1\<lparr>vl_size := size_t_minus (vl_size v1) numSub\<rparr>)))
       (\<lambda>v'. Inr (ptr_add (begin_it N v') disFirst, v'))))"

definition erase_one :: "nat \<Rightarrow> 'a vlvector \<Rightarrow> ptr \<Rightarrow> error + ptr \<times> 'a vlvector" where
  \<comment> \<open>\<open>erase(toRemove)\<close>\<close>
  "erase_one N v toRemove = (let end = ptr_add toRemove 1 in erase N v toRemove end)"

subsection \<open>Copy assignment\<close>

text \<open>
  \<open>operator=\<close> is the one operation whose behaviour depends on which objects its
  arguments are, so it runs over a memory of containers, addressed by their index. The
  expression \<open>VLVector(rhs)\<close> creates a temporary at a fresh address, and the statement
  \<open>*this = VLVector(rhs)\<close> is a call of \<open>operator=\<close> itself, the class declaring no other
  assignment operator; the temporary is destroyed when that call returns. The guard is
  written \<open>&rhs == *this\<close> in the source and is read as the comparison of the two
  addresses. The function counts its nested calls down from \<open>fuel\<close>; \<open>None\<close> says that
  the calls did not return within it.
\<close>

fun operator_assign ::
  "nat \<Rightarrow> nat \<Rightarrow> 'a vlvector list \<Rightarrow> nat \<Rightarrow> nat \<Rightarrow> (error + 'a vlvector list) option" where
  "operator_assign N 0 mem this rhs = None"
| "operator_assign N (Suc fuel) mem this rhs =
     (if rhs = this then Some (Inr mem)
      else if \<not> (this < length mem \<and> rhs < length mem) then Some (Inl undefined_behaviour)
      else case clear N (mem ! this) of
        Inl e \<Rightarrow> Some (Inl e)
      | Inr cleared \<Rightarrow>
          (let mem1 = mem[this := cleared] in
           case VLVector_copy N (mem1 ! rhs) of
             Inl e \<Rightarrow> Some (Inl e)
           | Inr temp \<Rightarrow>
               (case operator_assign N fuel (mem1 @ [temp]) this (length mem1) of
                  None \<Rightarrow> None
                | Some (Inl e) \<Rightarrow> Some (Inl e)
                | Some (Inr mem2) \<Rightarrow> Some (Inr (take (length mem1) mem2)))))"

text \<open>
  As written, the guard compares the pointer \<open>&rhs\<close> with the object \<open>*this\<close>, which no
  \<open>operator==\<close> of the class accepts. Its other possible reading compares the two
  containers with the class's \<open>operator==\<close> (equal sizes and equal elements in order);
  \<open>operator_assign_eq\<close> is the assignment under that reading.
\<close>

definition equal_op :: "nat \<Rightarrow> 'a vlvector \<Rightarrow> 'a vlvector \<Rightarrow> bool" where
  \<comment> \<open>\<open>operator==\<close>, on containers whose live slots lie within their arrays\<close>
  "equal_op N a rhs =
     (if vl_size a \<noteq> vl_size rhs then False
      else take (vl_size a) (data N a) = take (vl_size a) (data N rhs))"

fun operator_assign_eq ::
  "nat \<Rightarrow> nat \<Rightarrow> 'a vlvector list \<Rightarrow> nat \<Rightarrow> nat \<Rightarrow> (error + 'a vlvector list) option" where
  "operator_assign_eq N 0 mem this rhs = None"
| "operator_assign_eq N (Suc fuel) mem this rhs =
     (if \<not> (this < length mem \<and> rhs < length mem) then Some (Inl undefined_behaviour)
      else if equal_op N (mem ! rhs) (mem ! this) then Some (Inr mem)
      else case clear N (mem ! this) of
        Inl e \<Rightarrow> Some (Inl e)
      | Inr cleared \<Rightarrow>
          (let mem1 = mem[this := cleared] in
           case VLVector_copy N (mem1 ! rhs) of
             Inl e \<Rightarrow> Some (Inl e)
           | Inr temp \<Rightarrow>
               (case operator_assign_eq N fuel (mem1 @ [temp]) this (length mem1) of
                  None \<Rightarrow> None
                | Some (Inl e) \<Rightarrow> Some (Inl e)
                | Some (Inr mem2) \<Rightarrow> Some (Inr (take (length mem1) mem2)))))"

section \<open>Specification vocabulary\<close>

text \<open>The live slots of a container: the first \<open>size()\<close> slots of the array \<open>data()\<close>
  points to.\<close>

definition contents :: "nat \<Rightarrow> 'a vlvector \<Rightarrow> 'a buf" where
  "contents N v = take (vl_size v) (data N v)"

text \<open>
  The representation invariant. Its first part is about the fields alone: the capacity
  is a \<open>size_t\<close> not below \<open>N\<close>, the size is within it, the container is on its inline
  array exactly when the size is at most \<open>N\<close>, the inline array has \<open>N\<close> slots, and
  \<open>heapArr\<close> points to an array of \<open>capacity\<close> slots when the capacity exceeds \<open>N\<close> and
  is null otherwise. The second part says that every live slot holds a value.
\<close>

definition storage_shape :: "nat \<Rightarrow> 'a vlvector \<Rightarrow> bool" where
  "storage_shape N v =
     (N \<le> vl_capacity v \<and> vl_capacity v < 2 ^ 64 \<and> vl_size v \<le> vl_capacity v \<and>
      (vl_size v \<le> N) = (vl_capacity v = N) \<and>
      length (stackArr v) = N \<and>
      (if vl_capacity v > N
       then heapArr v \<noteq> None \<and> length (heap_buf v) = vl_capacity v
       else heapArr v = None))"

definition storage_inv :: "nat \<Rightarrow> 'a vlvector \<Rightarrow> bool" where
  "storage_inv N v = (storage_shape N v \<and> list_all (\<lambda>s. s \<noteq> None) (contents N v))"

text \<open>
  What a call \<open>_reCap(prevSize)\<close> on the container \<open>v1\<close> copies. A transition reads one
  array of \<open>v1\<close> (\<open>transition_source\<close>) and writes another, which is
  \<open>transition_target\<close> before the copy and \<open>transition_result\<close>, an array of the
  container that \<open>reCap\<close> returns, after it. \<open>with_source\<close> is \<open>v1\<close> with other slots in the
  array that the transition reads.
\<close>

definition transition_source :: "copy_plan \<Rightarrow> 'a vlvector \<Rightarrow> 'a buf" where
  "transition_source plan v1 =
     (case plan of NoCopy \<Rightarrow> [] | StackToHeap c n \<Rightarrow> stackArr v1
      | HeapToHeap c n \<Rightarrow> heap_buf v1 | HeapToStack n \<Rightarrow> heap_buf v1)"

definition transition_target :: "copy_plan \<Rightarrow> 'a vlvector \<Rightarrow> 'a buf" where
  "transition_target plan v1 =
     (case plan of NoCopy \<Rightarrow> [] | StackToHeap c n \<Rightarrow> new_array c
      | HeapToHeap c n \<Rightarrow> new_array c | HeapToStack n \<Rightarrow> stackArr v1)"

definition transition_result :: "copy_plan \<Rightarrow> 'a vlvector \<Rightarrow> 'a buf" where
  "transition_result plan v2 =
     (case plan of NoCopy \<Rightarrow> [] | StackToHeap c n \<Rightarrow> heap_buf v2
      | HeapToHeap c n \<Rightarrow> heap_buf v2 | HeapToStack n \<Rightarrow> stackArr v2)"

definition with_source :: "copy_plan \<Rightarrow> 'a vlvector \<Rightarrow> 'a buf \<Rightarrow> 'a vlvector" where
  "with_source plan v1 b =
     (case plan of NoCopy \<Rightarrow> v1 | StackToHeap c n \<Rightarrow> v1\<lparr>stackArr := b\<rparr>
      | HeapToHeap c n \<Rightarrow> v1\<lparr>heapArr := Some b\<rparr> | HeapToStack n \<Rightarrow> v1\<lparr>heapArr := Some b\<rparr>)"

text \<open>
  \<open>copies_exactly N v1 prevSize m\<close>: the call returns; when it takes no transition the
  container is as before; when it takes one, the count given to \<open>std::copy\<close> is \<open>m\<close>, the
  first \<open>m\<close> slots of the array written are the first \<open>m\<close> slots of the array read, and
  the slots of the array written from \<open>m\<close> on are as they were before the copy.
\<close>

definition copies_exactly :: "nat \<Rightarrow> 'a vlvector \<Rightarrow> nat \<Rightarrow> nat \<Rightarrow> bool" where
  "copies_exactly N v1 prevSize m =
     (let plan = reCap_plan N v1 prevSize in
      case reCap N v1 prevSize of
        Inl e \<Rightarrow> False
      | Inr v2 \<Rightarrow>
          (case copy_count plan of
             None \<Rightarrow> v2 = v1
           | Some n \<Rightarrow>
               n = m \<and> m \<le> length (transition_source plan v1)
               \<and> take m (transition_result plan v2) = take m (transition_source plan v1)
               \<and> drop m (transition_result plan v2) = drop m (transition_target plan v1)))"

text \<open>
  \<open>reads_below N v1 prevSize m\<close>: the call reads no slot of its source array at an index
  from \<open>m\<close> on. Whatever those slots hold, the call returns and the array it has written
  is the same.
\<close>

definition reads_below :: "nat \<Rightarrow> 'a vlvector \<Rightarrow> nat \<Rightarrow> nat \<Rightarrow> bool" where
  "reads_below N v1 prevSize m =
     (let plan = reCap_plan N v1 prevSize in
      \<forall>src'. length src' = length (transition_source plan v1) \<longrightarrow>
             take m src' = take m (transition_source plan v1) \<longrightarrow>
        (case reCap N v1 prevSize of
           Inl e \<Rightarrow> False
         | Inr v2 \<Rightarrow>
             (case reCap N (with_source plan v1 src') prevSize of
                Inl e \<Rightarrow> False
              | Inr v2' \<Rightarrow> transition_result plan v2' = transition_result plan v2)))"

text \<open>
  The containers a program can hold: built by a constructor and changed by the public
  operations, each called within its contract (an insert position in \<open>[begin, end]\<close>, an
  erase range within the container, a write through \<open>operator[]\<close> below the size) and
  with a size that the growth policy can multiply by 3 in a \<open>size_t\<close>.
\<close>

inductive reachable :: "nat \<Rightarrow> 'a vlvector \<Rightarrow> bool" for N :: nat where
  r_default: "reachable N (VLVector N)"
| r_range: "3 * length xs < 2 ^ 64 \<Longrightarrow> VLVector_range N xs = Inr v \<Longrightarrow> reachable N v"
| r_copy: "reachable N other \<Longrightarrow> 3 * vl_size other < 2 ^ 64 \<Longrightarrow>
     VLVector_copy N other = Inr v \<Longrightarrow> reachable N v"
| r_assign: "reachable N a \<Longrightarrow> reachable N b \<Longrightarrow> 3 * vl_size b < 2 ^ 64 \<Longrightarrow>
     operator_assign N fuel [a, b] 0 1 = Some (Inr mem) \<Longrightarrow> reachable N (mem ! 0)"
| r_self_assign: "reachable N a \<Longrightarrow>
     operator_assign N fuel [a] 0 0 = Some (Inr mem) \<Longrightarrow> reachable N (mem ! 0)"
| r_push_back: "reachable N v \<Longrightarrow> 3 * (vl_size v + 1) < 2 ^ 64 \<Longrightarrow>
     push_back N v x = Inr v' \<Longrightarrow> reachable N v'"
| r_pop_back: "reachable N v \<Longrightarrow> pop_back N v = Inr v' \<Longrightarrow> reachable N v'"
| r_clear: "reachable N v \<Longrightarrow> clear N v = Inr v' \<Longrightarrow> reachable N v'"
| r_write: "reachable N v \<Longrightarrow> i < vl_size v \<Longrightarrow>
     store_at (data N v) i x = Inr b \<Longrightarrow> reachable N (set_region v (fst (begin_it N v)) b)"
| r_insert_range: "reachable N v \<Longrightarrow> d \<le> vl_size v \<Longrightarrow>
     3 * (vl_size v + length xs) < 2 ^ 64 \<Longrightarrow>
     insert_range N v (ptr_add (begin_it N v) d) xs = Inr (p, v') \<Longrightarrow> reachable N v'"
| r_insert_one: "reachable N v \<Longrightarrow> d \<le> vl_size v \<Longrightarrow> 3 * (vl_size v + 1) < 2 ^ 64 \<Longrightarrow>
     insert_one N v (ptr_add (begin_it N v) d) x = Inr (p, v') \<Longrightarrow> reachable N v'"
| r_erase: "reachable N v \<Longrightarrow> i \<le> j \<Longrightarrow> j \<le> vl_size v \<Longrightarrow>
     erase N v (ptr_add (begin_it N v) i) (ptr_add (begin_it N v) j) = Inr (p, v') \<Longrightarrow>
     reachable N v'"
| r_erase_one: "reachable N v \<Longrightarrow> i < vl_size v \<Longrightarrow>
     erase_one N v (ptr_add (begin_it N v) i) = Inr (p, v') \<Longrightarrow> reachable N v'"

text \<open>Three containers with \<open>N = 4\<close> that the examples below start from: one that fills
  its inline array, one on the heap with room to spare, and one that fills its heap array.\<close>

definition inline4 :: "nat vlvector" where
  "inline4 = \<lparr>vl_size = 4, vl_capacity = 4, heapArr = None,
              stackArr = [Some 1, Some 2, Some 3, Some 4]\<rparr>"

definition heap5 :: "nat vlvector" where
  "heap5 = \<lparr>vl_size = 5, vl_capacity = 7,
            heapArr = Some [Some 1, Some 2, Some 3, Some 4, Some 5, None, None],
            stackArr = [Some 1, Some 2, Some 3, Some 4]\<rparr>"

definition heap7 :: "nat vlvector" where
  "heap7 = \<lparr>vl_size = 7, vl_capacity = 7,
            heapArr = Some [Some 1, Some 2, Some 3, Some 4, Some 5, Some 6, Some 7],
            stackArr = [Some 1, Some 2, Some 3, Some 4]\<rparr>"

section \<open>Machine arithmetic within range\<close>

lemma size_t_plus_id: "a + b < 2 ^ 64 \<Longrightarrow> size_t_plus a b = a + b"
  by (simp add: size_t_plus_def)

lemma size_t_minus_id: "b \<le> a \<Longrightarrow> size_t_minus a b = a - b"
  by (simp add: size_t_minus_def)

lemma static_conv: "N < 2 ^ 31 \<Longrightarrow> size_t_of_int (int_of_ulong N) = N"
  by (simp add: size_t_of_int_def int_of_ulong_def Let_def)

lemma capfunc_nat:
  assumes "N < 2 ^ 31" and "3 * s < 2 ^ 64"
  shows "capfunc s (int_of_ulong N) c = (if s \<le> N then N else if s \<le> c then c else 3 * s div 2)"
  using assms by (simp add: capfunc_def static_conv)

section \<open>The copy loops as list operations\<close>

lemma then_do_Inr [simp]: "then_do (Inr x) f = f x"
  by (simp add: then_do_def)

lemma then_do_Inl [simp]: "then_do (Inl e) f = Inl e"
  by (simp add: then_do_def)

lemma std_copy_eq:
  "first \<le> last_it \<Longrightarrow> last_it \<le> length src \<Longrightarrow> d + (last_it - first) \<le> length dst \<Longrightarrow>
   std_copy src first last_it dst d =
     Inr (take d dst @ take (last_it - first) (drop first src) @ drop (d + (last_it - first)) dst)"
proof (induction src first last_it dst d rule: std_copy.induct)
  case (1 src first last_it dst d)
  show ?case
  proof (cases "first = last_it")
    case True
    then show ?thesis by simp
  next
    case False
    with 1(2,3,4) have lt: "first < last_it" "first < length src" "d < length dst"
      by auto
    let ?dst = "dst[d := src ! first]"
    have step: "std_copy src first last_it dst d = std_copy src (Suc first) last_it ?dst (Suc d)"
      using False lt by simp
    have ih: "std_copy src (Suc first) last_it ?dst (Suc d) =
      Inr (take (Suc d) ?dst @ take (last_it - Suc first) (drop (Suc first) src)
           @ drop (Suc d + (last_it - Suc first)) ?dst)"
      using 1(1)[OF False] lt 1(3,4) by simp
    have A: "take (Suc d) ?dst = take d dst @ [src ! first]"
      using lt by (simp add: take_Suc_conv_app_nth)
    have B: "take (last_it - first) (drop first src) =
             src ! first # take (last_it - Suc first) (drop (Suc first) src)"
    proof -
      have "last_it - first = Suc (last_it - Suc first)" using lt by simp
      moreover have "drop first src = src ! first # drop (Suc first) src"
        using lt by (simp add: Cons_nth_drop_Suc)
      ultimately show ?thesis by simp
    qed
    have C: "drop (Suc d + (last_it - Suc first)) ?dst = drop (d + (last_it - first)) dst"
    proof -
      have e: "Suc d + (last_it - Suc first) = d + (last_it - first)" using lt by arith
      have "drop (Suc d + (last_it - Suc first)) ?dst = drop (Suc d + (last_it - Suc first)) dst"
        by (rule drop_update_cancel) simp
      then show ?thesis by (simp only: e)
    qed
    show ?thesis
      unfolding step ih A B C by simp
  qed
qed

lemma std_copy_within_eq:
  "d \<le> first \<Longrightarrow> first \<le> last_it \<Longrightarrow> last_it \<le> length b \<Longrightarrow>
   std_copy_within b first last_it d =
     Inr (take d b @ take (last_it - first) (drop first b) @ drop (d + (last_it - first)) b)"
proof (induction b first last_it d rule: std_copy_within.induct)
  case (1 b first last_it d)
  show ?case
  proof (cases "first = last_it")
    case True
    then show ?thesis by simp
  next
    case False
    with 1(2,3,4) have lt: "first < last_it" "first < length b" "d < length b" "d \<le> first"
      by auto
    let ?b = "b[d := b ! first]"
    have step: "std_copy_within b first last_it d = std_copy_within ?b (Suc first) last_it (Suc d)"
      using False lt by simp
    have ih: "std_copy_within ?b (Suc first) last_it (Suc d) =
      Inr (take (Suc d) ?b @ take (last_it - Suc first) (drop (Suc first) ?b)
           @ drop (Suc d + (last_it - Suc first)) ?b)"
      using 1(1)[OF False] lt 1(3,4) by simp
    have A: "take (Suc d) ?b = take d b @ [b ! first]"
      using lt by (simp add: take_Suc_conv_app_nth)
    have B: "take (last_it - first) (drop first b) =
             b ! first # take (last_it - Suc first) (drop (Suc first) ?b)"
    proof -
      have "last_it - first = Suc (last_it - Suc first)" using lt by simp
      moreover have "drop first b = b ! first # drop (Suc first) b"
        using lt by (simp add: Cons_nth_drop_Suc)
      moreover have "drop (Suc first) ?b = drop (Suc first) b"
        using lt by simp
      ultimately show ?thesis by simp
    qed
    have C: "drop (Suc d + (last_it - Suc first)) ?b = drop (d + (last_it - first)) b"
    proof -
      have e: "Suc d + (last_it - Suc first) = d + (last_it - first)" using lt by arith
      have "drop (Suc d + (last_it - Suc first)) ?b = drop (Suc d + (last_it - Suc first)) b"
        by (rule drop_update_cancel) simp
      then show ?thesis by (simp only: e)
    qed
    show ?thesis
      unfolding step ih A B C by simp
  qed
qed

declare std_copy.simps [simp del] std_copy_within.simps [simp del]

section \<open>The transition engine on well-formed containers\<close>

lemma push_back_call_eq:
  "vl_size v + 1 < 2 ^ 64 \<Longrightarrow> push_back_call v = (v\<lparr>vl_size := Suc (vl_size v)\<rparr>, vl_size v)"
  by (simp add: push_back_call_def size_t_plus_def size_t_minus_def)

lemma pop_back_call_eq:
  "0 < vl_size v \<Longrightarrow> vl_size v < 2 ^ 64 \<Longrightarrow>
   pop_back_call v = (v\<lparr>vl_size := vl_size v - 1\<rparr>, vl_size v)"
  by (simp add: pop_back_call_def size_t_plus_def size_t_minus_def)

lemma shape_heap:
  assumes "storage_shape N v" and "vl_capacity v > N"
  shows "\<exists>h. heapArr v = Some h \<and> length h = vl_capacity v \<and> heap_buf v = h"
  using assms by (auto simp: storage_shape_def heap_buf_def split: option.splits)

lemma shape_sizes:
  assumes "storage_shape N v"
  shows "N \<le> vl_capacity v" and "vl_size v \<le> vl_capacity v"
    and "(vl_size v \<le> N) = (vl_capacity v = N)" and "length (stackArr v) = N"
    and "vl_capacity v < 2 ^ 64"
  using assms by (simp_all add: storage_shape_def)

lemma reCap_grow:
  assumes N: "N < 2 ^ 31" and sh: "storage_shape N v" and b: "3 * (vl_size v + 1) < 2 ^ 64"
  shows "\<exists>v2. reCap N (v\<lparr>vl_size := Suc (vl_size v)\<rparr>) (vl_size v) = Inr v2
            \<and> storage_shape N v2 \<and> vl_size v2 = Suc (vl_size v)
            \<and> take (vl_size v) (data N v2) = take (vl_size v) (data N v)"
proof -
  let ?v1 = "v\<lparr>vl_size := Suc (vl_size v)\<rparr>"
  consider (stay_inline) "vl_capacity v = N" "vl_size v < N"
    | (to_heap) "vl_capacity v = N" "vl_size v = N"
    | (stay_heap) "vl_capacity v > N" "vl_size v < vl_capacity v"
    | (grow) "vl_capacity v > N" "vl_size v = vl_capacity v"
    using shape_sizes(1,2,3)[OF sh] by linarith
  then show ?thesis
  proof cases
    case stay_inline
    then have "reCap_plan N ?v1 (vl_size v) = NoCopy"
      by (simp add: reCap_plan_def)
    then have "reCap N ?v1 (vl_size v) = Inr ?v1"
      by (simp add: reCap_def)
    moreover have "storage_shape N ?v1"
      using sh stay_inline by (simp add: storage_shape_def heap_buf_def)
    ultimately show ?thesis by (simp add: data_def heap_buf_def)
  next
    case to_heap
    define c where "c = 3 * Suc N div 2"
    have cb: "N < c" "c < 2 ^ 64" using b to_heap by (simp_all add: c_def)
    have len: "length (stackArr v) = N" using sh by (simp add: storage_shape_def)
    have "capfunc (Suc N) (int_of_ulong N) N = c"
      using capfunc_nat[OF N, of "Suc N" N] b to_heap by (simp add: c_def)
    then have plan: "reCap_plan N ?v1 (vl_size v) = StackToHeap c N"
      using to_heap by (simp add: reCap_plan_def)
    have cp: "std_copy (stackArr v) 0 N (new_array c) 0 = Inr (stackArr v @ replicate (c - N) None)"
      using len cb by (simp add: std_copy_eq new_array_def)
    let ?v2 = "?v1\<lparr>heapArr := Some (stackArr v @ replicate (c - N) None), vl_capacity := c\<rparr>"
    have r: "reCap N ?v1 (vl_size v) = Inr ?v2"
      by (simp add: reCap_def plan cp)
    have "storage_shape N ?v2"
      using sh to_heap cb len by (simp add: storage_shape_def heap_buf_def)
    moreover have "take (vl_size v) (data N ?v2) = take (vl_size v) (data N v)"
      using to_heap len cb by (simp add: data_def heap_buf_def)
    ultimately show ?thesis using r by simp
  next
    case stay_heap
    have gt: "vl_size v > N" using sh stay_heap by (auto simp: storage_shape_def)
    then have "reCap_plan N ?v1 (vl_size v) = NoCopy"
      using stay_heap by (simp add: reCap_plan_def)
    then have "reCap N ?v1 (vl_size v) = Inr ?v1"
      by (simp add: reCap_def)
    moreover have "storage_shape N ?v1"
      using sh stay_heap gt by (simp add: storage_shape_def heap_buf_def)
    ultimately show ?thesis by (simp add: data_def heap_buf_def)
  next
    case grow
    obtain h where h: "heapArr v = Some h" "length h = vl_capacity v" "heap_buf v = h"
      using shape_heap[OF sh grow(1)] by blast
    let ?s = "vl_size v"
    define c where "c = 3 * Suc ?s div 2"
    have cb: "?s < c" "c < 2 ^ 64" using b by (simp_all add: c_def)
    have "capfunc (Suc ?s) (int_of_ulong N) (vl_capacity v) = c"
      using capfunc_nat[OF N, of "Suc ?s" "vl_capacity v"] b grow by (simp add: c_def)
    then have plan: "reCap_plan N ?v1 ?s = HeapToHeap c ?s"
      using grow by (simp add: reCap_plan_def)
    have cp: "std_copy h 0 ?s (new_array c) 0 = Inr (h @ replicate (c - ?s) None)"
      using h grow cb by (simp add: std_copy_eq new_array_def)
    let ?v2 = "?v1\<lparr>vl_capacity := c, heapArr := Some (h @ replicate (c - ?s) None)\<rparr>"
    have hb: "heap_buf ?v1 = h" using h by (simp add: heap_buf_def)
    have r: "reCap N ?v1 ?s = Inr ?v2"
      by (simp add: reCap_def plan hb cp)
    have "storage_shape N ?v2"
      using sh grow cb h by (simp add: storage_shape_def heap_buf_def)
    moreover have "take ?s (data N ?v2) = take ?s (data N v)"
      using grow h cb by (simp add: data_def heap_buf_def)
    ultimately show ?thesis using r by simp
  qed
qed

lemma reCap_shrink:
  assumes sh: "storage_shape N v" and n: "n \<le> vl_size v"
  shows "\<exists>v2. reCap N (v\<lparr>vl_size := n\<rparr>) p = Inr v2
            \<and> storage_shape N v2 \<and> vl_size v2 = n
            \<and> take n (data N v2) = take n (data N v)"
proof -
  let ?v1 = "v\<lparr>vl_size := n\<rparr>"
  consider (inline) "vl_capacity v = N"
    | (stay_heap) "vl_capacity v > N" "n > N"
    | (to_inline) "vl_capacity v > N" "n \<le> N"
    using shape_sizes(1)[OF sh] by linarith
  then show ?thesis
  proof cases
    case inline
    then have le: "n \<le> N" using sh n by (auto simp: storage_shape_def)
    then have "reCap_plan N ?v1 p = NoCopy"
      using inline by (simp add: reCap_plan_def)
    then have "reCap N ?v1 p = Inr ?v1"
      by (simp add: reCap_def)
    moreover have "storage_shape N ?v1"
      using sh inline le by (simp add: storage_shape_def heap_buf_def)
    ultimately show ?thesis by (simp add: data_def heap_buf_def)
  next
    case stay_heap
    have "n \<le> vl_capacity v" using sh n by (simp add: storage_shape_def)
    then have "reCap_plan N ?v1 p = NoCopy"
      using stay_heap by (simp add: reCap_plan_def)
    then have "reCap N ?v1 p = Inr ?v1"
      by (simp add: reCap_def)
    moreover have "storage_shape N ?v1"
      using sh stay_heap n by (simp add: storage_shape_def heap_buf_def)
    ultimately show ?thesis by (simp add: data_def heap_buf_def)
  next
    case to_inline
    obtain h where h: "heapArr v = Some h" "length h = vl_capacity v" "heap_buf v = h"
      using shape_heap[OF sh to_inline(1)] by blast
    have len: "length (stackArr v) = N" using sh by (simp add: storage_shape_def)
    have plan: "reCap_plan N ?v1 p = HeapToStack n"
      using to_inline by (simp add: reCap_plan_def)
    have hb: "heap_buf ?v1 = h" using h by (simp add: heap_buf_def)
    have cp: "std_copy h 0 n (stackArr v) 0 = Inr (take n h @ drop n (stackArr v))"
      using h to_inline len by (simp add: std_copy_eq)
    let ?v2 = "?v1\<lparr>vl_capacity := N, stackArr := take n h @ drop n (stackArr v), heapArr := None\<rparr>"
    have r: "reCap N ?v1 p = Inr ?v2"
      by (simp add: reCap_def plan hb cp)
    have "storage_shape N ?v2"
      using sh to_inline len h by (simp add: storage_shape_def heap_buf_def)
    moreover have "take n (data N ?v2) = take n (data N v)"
      using to_inline h by (simp add: data_def heap_buf_def)
    ultimately show ?thesis using r by simp
  qed
qed

section \<open>push_back, pop_back and clear on well-formed containers\<close>

lemma shape_data_length: "storage_shape N v \<Longrightarrow> length (data N v) = vl_capacity v"
  by (auto simp: storage_shape_def data_def)

lemma write_data:
  assumes sh: "storage_shape N v" and len: "length b = vl_capacity v"
  shows "storage_shape N (set_region v (fst (begin_it N v)) b)"
    and "data N (set_region v (fst (begin_it N v)) b) = b"
    and "vl_size (set_region v (fst (begin_it N v)) b) = vl_size v"
    and "vl_capacity (set_region v (fst (begin_it N v)) b) = vl_capacity v"
  using sh len
  by (auto simp: storage_shape_def set_region_def begin_it_def data_def heap_buf_def
      split: option.splits)

lemma inv_init: "N < 2 ^ 31 \<Longrightarrow> storage_inv N (VLVector N)"
proof -
  assume "N < 2 ^ 31"
  then have "N < (2::nat) ^ 64"
    by (rule less_trans) simp
  then show ?thesis
    by (simp add: storage_inv_def storage_shape_def VLVector_def new_array_def contents_def)
qed

lemma push_back_spec:
  assumes N: "N < 2 ^ 31" and inv: "storage_inv N v" and b: "3 * (vl_size v + 1) < 2 ^ 64"
  shows "\<exists>v'. push_back N v x = Inr v' \<and> storage_inv N v' \<and> vl_size v' = vl_size v + 1
            \<and> contents N v' = contents N v @ [Some x]"
proof -
  have sh: "storage_shape N v" and live: "list_all (\<lambda>s. s \<noteq> None) (contents N v)"
    using inv by (simp_all add: storage_inv_def)
  obtain v2 where v2: "reCap N (v\<lparr>vl_size := Suc (vl_size v)\<rparr>) (vl_size v) = Inr v2"
    "storage_shape N v2" "vl_size v2 = Suc (vl_size v)"
    "take (vl_size v) (data N v2) = take (vl_size v) (data N v)"
    using reCap_grow[OF N sh b] by blast
  have call: "push_back_call v = (v\<lparr>vl_size := Suc (vl_size v)\<rparr>, vl_size v)"
    using b by (intro push_back_call_eq) simp
  have len: "length (data N v2) = vl_capacity v2"
    by (rule shape_data_length[OF v2(2)])
  have lt: "vl_size v < length (data N v2)"
    using len shape_sizes(2)[OF v2(2)] v2(3) by simp
  let ?b = "(data N v2)[vl_size v := Some x]"
  let ?v' = "set_region v2 (fst (begin_it N v2)) ?b"
  have pb: "push_back N v x = Inr ?v'"
  proof (cases "vl_capacity v2 > N")
    case True
    with lt show ?thesis
      by (simp add: push_back_def call v2(1) v2(3) size_t_minus_id store_at_def
          data_def begin_it_def)
  next
    case False
    with lt show ?thesis
      by (simp add: push_back_def call v2(1) v2(3) size_t_minus_id store_at_def
          data_def begin_it_def)
  qed
  have w: "storage_shape N ?v'" "data N ?v' = ?b" "vl_size ?v' = Suc (vl_size v)"
    using write_data[OF v2(2), of ?b] len v2(3) by simp_all
  have c: "contents N ?v' = contents N v @ [Some x]"
    using lt v2(4) by (simp add: contents_def w take_Suc_conv_app_nth)
  have "storage_inv N ?v'"
    using w(1) live by (simp add: storage_inv_def c)
  then show ?thesis
    using pb w(3) c by simp
qed

lemma pop_back_spec:
  assumes inv: "storage_inv N v"
  shows "\<exists>v'. pop_back N v = Inr v' \<and> storage_inv N v' \<and> vl_size v' = vl_size v - 1
            \<and> contents N v' = take (vl_size v - 1) (contents N v)"
proof (cases "vl_size v = 0")
  case True
  then show ?thesis using inv by (simp add: pop_back_def contents_def)
next
  case False
  have sh: "storage_shape N v" and live: "list_all (\<lambda>s. s \<noteq> None) (contents N v)"
    using inv by (simp_all add: storage_inv_def)
  have "vl_size v < 2 ^ 64"
    using shape_sizes(2,5)[OF sh] by simp
  then have call: "pop_back_call v = (v\<lparr>vl_size := vl_size v - 1\<rparr>, vl_size v)"
    using False by (intro pop_back_call_eq) simp_all
  obtain v2 where v2: "reCap N (v\<lparr>vl_size := vl_size v - 1\<rparr>) (vl_size v) = Inr v2"
    "storage_shape N v2" "vl_size v2 = vl_size v - 1"
    "take (vl_size v - 1) (data N v2) = take (vl_size v - 1) (data N v)"
    using reCap_shrink[OF sh, of "vl_size v - 1" "vl_size v"] by auto
  have c: "contents N v2 = take (vl_size v - 1) (contents N v)"
    using v2(3,4) by (simp add: contents_def min_def)
  have "list_all (\<lambda>s. s \<noteq> None) (contents N v2)"
    unfolding c using live by (simp add: list_all_iff) (meson in_set_takeD)
  then have "storage_inv N v2"
    using v2(2) by (simp add: storage_inv_def)
  then show ?thesis
    using False v2 c by (simp add: pop_back_def call)
qed

lemma clear_spec:
  assumes inv: "storage_inv N v"
  shows "\<exists>v'. clear N v = Inr v' \<and> storage_inv N v' \<and> vl_size v' = 0 \<and> vl_capacity v' = N
            \<and> contents N v' = []"
proof (cases "vl_size v = 0")
  case True
  have "vl_capacity v = N"
    using shape_sizes(3)[of N v] inv True by (simp add: storage_inv_def)
  then show ?thesis using inv True by (simp add: clear_def contents_def)
next
  case False
  have sh: "storage_shape N v"
    using inv by (simp add: storage_inv_def)
  obtain v2 where v2: "reCap N (v\<lparr>vl_size := 0\<rparr>) (vl_size v) = Inr v2"
    "storage_shape N v2" "vl_size v2 = 0"
    using reCap_shrink[OF sh, of 0 "vl_size v"] by auto
  have "vl_capacity v2 = N"
    using shape_sizes(3)[OF v2(2)] v2(3) by simp
  moreover have "storage_inv N v2"
    using v2(2,3) by (simp add: storage_inv_def contents_def)
  ultimately show ?thesis
    using False v2 by (simp add: clear_def clear_call_def contents_def)
qed

lemma push_all_spec:
  assumes N: "N < 2 ^ 31"
  shows "storage_inv N v \<Longrightarrow> 3 * (vl_size v + length xs) < 2 ^ 64 \<Longrightarrow>
    \<exists>v'. push_all N v xs = Inr v' \<and> storage_inv N v' \<and> vl_size v' = vl_size v + length xs
         \<and> contents N v' = contents N v @ map Some xs"
proof (induction xs arbitrary: v)
  case Nil
  then show ?case by simp
next
  case (Cons x xs)
  have "3 * (vl_size v + 1) < 2 ^ 64"
    using Cons.prems(2) by simp
  then obtain v1 where v1: "push_back N v x = Inr v1" "storage_inv N v1"
    "vl_size v1 = vl_size v + 1" "contents N v1 = contents N v @ [Some x]"
    using push_back_spec[OF N Cons.prems(1)] by blast
  have "3 * (vl_size v1 + length xs) < 2 ^ 64"
    using Cons.prems(2) v1(3) by simp
  then obtain v' where "push_all N v1 xs = Inr v'" "storage_inv N v'"
    "vl_size v' = vl_size v1 + length xs" "contents N v' = contents N v1 @ map Some xs"
    using Cons.IH[OF v1(2)] by blast
  then show ?case
    using v1 by simp
qed

lemma VLVector_range_spec:
  assumes N: "N < 2 ^ 31" and b: "3 * length xs < 2 ^ 64"
  shows "\<exists>t. VLVector_range N xs = Inr t \<and> storage_inv N t \<and> vl_size t = length xs
            \<and> contents N t = map Some xs"
proof -
  have e: "vl_size (VLVector N) = 0" "contents N (VLVector N) = []"
    by (simp_all add: VLVector_def contents_def)
  have bb: "3 * (vl_size (VLVector N :: 'a vlvector) + length xs) < 2 ^ 64"
    using b by (simp add: e)
  obtain t where t: "push_all N (VLVector N) xs = Inr t" "storage_inv N t"
    "vl_size t = vl_size (VLVector N :: 'a vlvector) + length xs"
    "contents N t = contents N (VLVector N) @ map Some xs"
    using push_all_spec[OF N inv_init[OF N] bb] by blast
  have "VLVector_range N xs = Inr t"
    using t(1) by (simp add: VLVector_range_def)
  moreover have "vl_size t = length xs" "contents N t = map Some xs"
    using t(3,4) by (simp_all add: e)
  ultimately show ?thesis
    using t(2) by blast
qed

lemma length_contents: "storage_shape N v \<Longrightarrow> length (contents N v) = vl_size v"
  using shape_data_length[of N v] shape_sizes(2)[of N v] by (simp add: contents_def)

section \<open>Evaluation on concrete containers\<close>

lemma replicate_numeral: "replicate (numeral k) x = x # replicate (numeral k - 1) x"
  by (simp add: numeral_eq_Suc)

lemma list_update_Cons_numeral: "(x # xs)[numeral k := y] = x # xs[numeral k - 1 := y]"
  by (simp add: numeral_eq_Suc)

lemmas eval_defs = replicate_numeral list_update_Cons_numeral push_back_def push_back_call_def pop_back_def pop_back_call_def
  clear_def clear_call_def reCap_def reCap_plan_def capfunc_def int_of_ulong_def
  size_t_of_int_def size_t_plus_def size_t_minus_def store_at_def set_region_def
  heap_buf_def new_array_def std_copy_eq std_copy_within_eq VLVector_def
  begin_it_def end_it_def data_def contents_def capacity_def ptr_add_def ptr_diff_def
  region_buf_def copy_out_def copy_in_def

lemma inv_inline4: "storage_inv 4 inline4"
  by (simp add: storage_inv_def storage_shape_def inline4_def contents_def data_def)

lemma inv_heap5: "storage_inv 4 heap5"
  by (simp add: storage_inv_def storage_shape_def heap5_def contents_def data_def heap_buf_def)

lemma inv_heap7: "storage_inv 4 heap7"
  by (simp add: storage_inv_def storage_shape_def heap7_def contents_def data_def heap_buf_def)

section \<open>push_back followed by pop_back\<close>

text \<open>
  Claim C10. For every container \<open>v\<close> and every value \<open>x\<close>, \<open>v.push_back(x)\<close> followed by
  \<open>v.pop_back()\<close> restores the original size and the original element sequence; capacity
  and storage location may differ. Both calls return, for every container that satisfies
  the representation invariant and whose size the growth policy can handle.
\<close>

theorem push_back_pop_back_restores:
  assumes "N < 2 ^ 31" and "storage_inv N v" and "3 * (vl_size v + 1) < 2 ^ 64"
  shows "\<exists>v'. then_do (push_back N v x) (pop_back N) = Inr v'
            \<and> vl_size v' = vl_size v \<and> contents N v' = contents N v"
proof -
  obtain v1 where v1: "push_back N v x = Inr v1" "storage_inv N v1"
    "vl_size v1 = vl_size v + 1" "contents N v1 = contents N v @ [Some x]"
    using push_back_spec[OF assms] by blast
  obtain v2 where v2: "pop_back N v1 = Inr v2" "vl_size v2 = vl_size v1 - 1"
    "contents N v2 = take (vl_size v1 - 1) (contents N v1)"
    using pop_back_spec[OF v1(2)] by blast
  have "length (contents N v) = vl_size v"
    using assms(2) by (simp add: storage_inv_def length_contents)
  then have "contents N v2 = contents N v"
    using v2(3) v1(3,4) by simp
  then show ?thesis
    using v1(1,3) v2(1,2) by simp
qed

theorem push_back_pop_back_restores_witness:
  "(4::nat) < 2 ^ 31 \<and> storage_inv 4 inline4 \<and> 3 * (vl_size inline4 + 1) < (2::nat) ^ 64
   \<and> (\<exists>v'. then_do (push_back 4 inline4 9) (pop_back 4) = Inr v'
            \<and> vl_size v' = vl_size inline4 \<and> contents 4 v' = contents 4 inline4)"
proof -
  have h1: "(4::nat) < 2 ^ 31" by simp
  have h3: "3 * (vl_size inline4 + 1) < (2::nat) ^ 64" by (simp add: inline4_def)
  show ?thesis
    using push_back_pop_back_restores[OF h1 inv_inline4 h3, of 9] h1 h3 inv_inline4 by simp
qed

section \<open>The worked example with \<open>N = 4\<close>\<close>

text \<open>
  Claim C8. With \<open>N = 4\<close>, starting from an empty container: after the fifth
  \<open>push_back\<close> the capacity is 7, which is \<open>floor(3 * 5 / 2)\<close>, and the storage is the
  heap array; after popping back to four elements the capacity is 4 and the storage is
  the inline array again, with the four remaining elements in order.
\<close>

theorem five_then_four_N4:
  "\<exists>v5 v4. push_all 4 (VLVector 4) [a, b, c, d, e] = Inr v5
     \<and> capacity v5 = 7 \<and> begin_it 4 v5 = (Heap, 0)
     \<and> contents 4 v5 = [Some a, Some b, Some c, Some d, Some e]
     \<and> pop_back 4 v5 = Inr v4
     \<and> capacity v4 = 4 \<and> begin_it 4 v4 = (Stack, 0)
     \<and> contents 4 v4 = [Some a, Some b, Some c, Some d]"
  by (simp add: eval_defs)

section \<open>The copy count of the transition engine\<close>

text \<open>The copy loop reads its source only below \<open>last\<close>: sources that agree there give
  the same result.\<close>

lemma std_copy_reads_below:
  "take last_it src = take last_it src' \<Longrightarrow> length src = length src' \<Longrightarrow>
   std_copy src first last_it dst d = std_copy src' first last_it dst d"
proof (induction src first last_it dst d rule: std_copy.induct)
  case (1 src first last_it dst d)
  show ?case
  proof (cases "first < last_it \<and> first < length src \<and> d < length dst")
    case True
    then have "src ! first = src' ! first"
      using 1(2) by (metis nth_take)
    moreover have "std_copy src (Suc first) last_it (dst[d := src ! first]) (Suc d) =
                   std_copy src' (Suc first) last_it (dst[d := src ! first]) (Suc d)"
      using 1(1)[OF _ _ 1(2,3)] True by simp
    ultimately show ?thesis
      using True 1(3) by (subst (1 2) std_copy.simps) simp
  next
    case False
    then show ?thesis
      using 1(3) by (subst (1 2) std_copy.simps) auto
  qed
qed

lemma plan_grow:
  assumes sh: "storage_shape N v"
  shows "copy_count (reCap_plan N (v\<lparr>vl_size := Suc (vl_size v)\<rparr>) (vl_size v)) = None
       \<or> copy_count (reCap_plan N (v\<lparr>vl_size := Suc (vl_size v)\<rparr>) (vl_size v)) = Some (vl_size v)"
  using shape_sizes(1,2,3)[OF sh] by (auto simp: reCap_plan_def copy_count_def)

lemma plan_shrink:
  assumes sh: "storage_shape N v" and n: "n \<le> vl_size v"
  shows "copy_count (reCap_plan N (v\<lparr>vl_size := n\<rparr>) p) = None
       \<or> copy_count (reCap_plan N (v\<lparr>vl_size := n\<rparr>) p) = Some n"
  using shape_sizes(1,2,3)[OF sh] n by (auto simp: reCap_plan_def copy_count_def)

text \<open>The facts about a call of the engine that grows the size by one, and about one
  that shrinks it.\<close>

lemma plan_with_source:
  "reCap_plan N (with_source plan v1 b) p = reCap_plan N v1 p"
  by (simp add: reCap_plan_def with_source_def split: copy_plan.splits)

lemma plan_StackD: "reCap_plan N v1 p = StackToHeap c n \<Longrightarrow> vl_capacity v1 = N"
  by (simp add: reCap_plan_def split: if_splits)

lemma plan_HeapD:
  "reCap_plan N v1 p = HeapToHeap c n \<or> reCap_plan N v1 p = HeapToStack n \<Longrightarrow> N < vl_capacity v1"
  by (auto simp: reCap_plan_def split: if_splits)

lemma source_with_source:
  "copy_count plan \<noteq> None \<Longrightarrow> transition_source plan (with_source plan v1 b) = b"
  by (simp add: transition_source_def with_source_def copy_count_def heap_buf_def
      split: copy_plan.splits)

lemma target_with_source:
  "transition_target plan (with_source plan v1 b) = transition_target plan v1"
  by (simp add: transition_target_def with_source_def split: copy_plan.splits)

lemma grow_copies_exactly:
  assumes N: "N < 2 ^ 31" and sh: "storage_shape N v" and b: "3 * (vl_size v + 1) < 2 ^ 64"
  shows "copies_exactly N (v\<lparr>vl_size := Suc (vl_size v)\<rparr>) (vl_size v) (vl_size v)"
proof -
  let ?v1 = "v\<lparr>vl_size := Suc (vl_size v)\<rparr>"
  consider (stay_inline) "vl_capacity v = N" "vl_size v < N"
    | (to_heap) "vl_capacity v = N" "vl_size v = N"
    | (stay_heap) "vl_capacity v > N" "vl_size v < vl_capacity v"
    | (grow) "vl_capacity v > N" "vl_size v = vl_capacity v"
    using shape_sizes(1,2,3)[OF sh] by linarith
  then show ?thesis
  proof cases
    case stay_inline
    then have plan: "reCap_plan N ?v1 (vl_size v) = NoCopy"
      by (simp add: reCap_plan_def)
    then show ?thesis
      by (simp add: copies_exactly_def Let_def reCap_def copy_count_def)
  next
    case to_heap
    define c where "c = 3 * Suc N div 2"
    have cb: "N < c" using to_heap by (simp add: c_def)
    have len: "length (stackArr v) = N" using sh by (simp add: storage_shape_def)
    have "capfunc (Suc N) (int_of_ulong N) N = c"
      using capfunc_nat[OF N, of "Suc N" N] b to_heap by (simp add: c_def)
    then have plan: "reCap_plan N ?v1 (vl_size v) = StackToHeap c N"
      using to_heap by (simp add: reCap_plan_def)
    have cp: "std_copy (stackArr v) 0 N (new_array c) 0 = Inr (stackArr v @ replicate (c - N) None)"
      using len cb by (simp add: std_copy_eq new_array_def)
    have r: "reCap N ?v1 (vl_size v)
               = Inr (?v1\<lparr>heapArr := Some (stackArr v @ replicate (c - N) None),
                          vl_capacity := c\<rparr>)"
      by (simp add: reCap_def plan cp)
    show ?thesis
      unfolding copies_exactly_def Let_def plan r using to_heap len cb
      by (simp add: copy_count_def transition_source_def
          transition_target_def transition_result_def heap_buf_def new_array_def)
  next
    case stay_heap
    have gt: "vl_size v > N" using shape_sizes(3)[OF sh] stay_heap by auto
    then have plan: "reCap_plan N ?v1 (vl_size v) = NoCopy"
      using stay_heap by (simp add: reCap_plan_def)
    then show ?thesis
      by (simp add: copies_exactly_def Let_def reCap_def copy_count_def)
  next
    case grow
    obtain h where h: "heapArr v = Some h" "length h = vl_capacity v" "heap_buf v = h"
      using shape_heap[OF sh grow(1)] by blast
    let ?s = "vl_size v"
    define c where "c = 3 * Suc ?s div 2"
    have cb: "?s < c" using b by (simp add: c_def)
    have "capfunc (Suc ?s) (int_of_ulong N) (vl_capacity v) = c"
      using capfunc_nat[OF N, of "Suc ?s" "vl_capacity v"] b grow by (simp add: c_def)
    then have plan: "reCap_plan N ?v1 ?s = HeapToHeap c ?s"
      using grow by (simp add: reCap_plan_def)
    have cp: "std_copy h 0 ?s (new_array c) 0 = Inr (h @ replicate (c - ?s) None)"
      using h grow cb by (simp add: std_copy_eq new_array_def)
    have hb: "heap_buf ?v1 = h" using h by (simp add: heap_buf_def)
    have r: "reCap N ?v1 ?s
               = Inr (?v1\<lparr>vl_capacity := c, heapArr := Some (h @ replicate (c - ?s) None)\<rparr>)"
      by (simp add: reCap_def plan hb cp)
    show ?thesis
      unfolding copies_exactly_def Let_def plan r using grow h cb
      by (simp add: copy_count_def transition_source_def
          transition_target_def transition_result_def heap_buf_def new_array_def)
  qed
qed

lemma shrink_copies_exactly:
  assumes sh: "storage_shape N v" and k: "k \<le> vl_size v"
  shows "copies_exactly N (v\<lparr>vl_size := k\<rparr>) p k"
proof -
  let ?v1 = "v\<lparr>vl_size := k\<rparr>"
  consider (inline) "vl_capacity v = N"
    | (stay_heap) "vl_capacity v > N" "k > N"
    | (to_inline) "vl_capacity v > N" "k \<le> N"
    using shape_sizes(1)[OF sh] by linarith
  then show ?thesis
  proof cases
    case inline
    then have "k \<le> N" using shape_sizes(3)[OF sh] k by auto
    then have plan: "reCap_plan N ?v1 p = NoCopy"
      using inline by (simp add: reCap_plan_def)
    then show ?thesis
      by (simp add: copies_exactly_def Let_def reCap_def copy_count_def)
  next
    case stay_heap
    have "k \<le> vl_capacity v" using shape_sizes(2)[OF sh] k by simp
    then have plan: "reCap_plan N ?v1 p = NoCopy"
      using stay_heap by (simp add: reCap_plan_def)
    then show ?thesis
      by (simp add: copies_exactly_def Let_def reCap_def copy_count_def)
  next
    case to_inline
    obtain h where h: "heapArr v = Some h" "length h = vl_capacity v" "heap_buf v = h"
      using shape_heap[OF sh to_inline(1)] by blast
    have len: "length (stackArr v) = N" using sh by (simp add: storage_shape_def)
    have plan: "reCap_plan N ?v1 p = HeapToStack k"
      using to_inline by (simp add: reCap_plan_def)
    have hb: "heap_buf ?v1 = h" using h by (simp add: heap_buf_def)
    have cp: "std_copy h 0 k (stackArr v) 0 = Inr (take k h @ drop k (stackArr v))"
      using h to_inline len by (simp add: std_copy_eq)
    have r: "reCap N ?v1 p
               = Inr (?v1\<lparr>vl_capacity := N, stackArr := take k h @ drop k (stackArr v),
                          heapArr := None\<rparr>)"
      by (simp add: reCap_def plan hb cp)
    show ?thesis
      unfolding copies_exactly_def Let_def plan r using to_inline h
      by (simp add: copy_count_def transition_source_def
          transition_target_def transition_result_def heap_buf_def)
  qed
qed

lemma reads_below_I:
  assumes ex: "copies_exactly N v1 p m"
    and ex': "\<And>src'. length src' = length (transition_source (reCap_plan N v1 p) v1) \<Longrightarrow>
                copies_exactly N (with_source (reCap_plan N v1 p) v1 src') p m"
  shows "reads_below N v1 p m"
  unfolding reads_below_def Let_def
proof (intro allI impI)
  fix src' :: "'a buf"
  let ?plan = "reCap_plan N v1 p"
  let ?v1' = "with_source ?plan v1 src'"
  assume len: "length src' = length (transition_source ?plan v1)"
    and tk: "take m src' = take m (transition_source ?plan v1)"
  obtain v2 where v2: "reCap N v1 p = Inr v2"
    using ex by (auto simp: copies_exactly_def Let_def split: sum.splits)
  obtain v2' where v2': "reCap N ?v1' p = Inr v2'"
    using ex'[OF len] by (auto simp: copies_exactly_def Let_def split: sum.splits)
  have "transition_result ?plan v2' = transition_result ?plan v2"
  proof (cases "copy_count ?plan")
    case None
    then have "?plan = NoCopy"
      by (simp add: copy_count_def split: copy_plan.splits)
    then show ?thesis
      by (simp add: transition_result_def)
  next
    case (Some n)
    have a: "take m (transition_result ?plan v2) = take m (transition_source ?plan v1)"
      "drop m (transition_result ?plan v2) = drop m (transition_target ?plan v1)"
      using ex Some by (simp_all add: copies_exactly_def Let_def v2)
    have b: "take m (transition_result ?plan v2') = take m src'"
      "drop m (transition_result ?plan v2') = drop m (transition_target ?plan v1)"
      using ex'[OF len] Some
      by (simp_all add: copies_exactly_def Let_def v2' plan_with_source source_with_source
          target_with_source)
    have "transition_result ?plan v2' = take m src' @ drop m (transition_target ?plan v1)"
      using b append_take_drop_id[of m "transition_result ?plan v2'"] by simp
    also have "\<dots> = transition_result ?plan v2"
      using a tk append_take_drop_id[of m "transition_result ?plan v2"] by simp
    finally show ?thesis .
  qed
  then show "case reCap N v1 p of Inl e \<Rightarrow> False
      | Inr v2 \<Rightarrow> (case reCap N ?v1' p of Inl e \<Rightarrow> False
                   | Inr v2' \<Rightarrow> transition_result ?plan v2' = transition_result ?plan v2)"
    by (simp add: v2 v2')
qed

lemma shape_with_source:
  assumes sh: "storage_shape N v" and plan: "plan = reCap_plan N (v\<lparr>vl_size := k\<rparr>) p"
    and len: "length b = length (transition_source plan (v\<lparr>vl_size := k\<rparr>))"
  shows "storage_shape N (with_source plan v b)"
    and "vl_size (with_source plan v b) = vl_size v"
    and "with_source plan (v\<lparr>vl_size := k\<rparr>) b = (with_source plan v b)\<lparr>vl_size := k\<rparr>"
proof -
  show "vl_size (with_source plan v b) = vl_size v"
    by (simp add: with_source_def split: copy_plan.splits)
  show "with_source plan (v\<lparr>vl_size := k\<rparr>) b = (with_source plan v b)\<lparr>vl_size := k\<rparr>"
    by (simp add: with_source_def split: copy_plan.splits)
  show "storage_shape N (with_source plan v b)"
  proof (cases plan)
    case NoCopy
    then show ?thesis using sh by (simp add: with_source_def)
  next
    case (StackToHeap c n)
    then have "vl_capacity v = N"
      using plan_StackD[of N "v\<lparr>vl_size := k\<rparr>" p c n] plan by simp
    then show ?thesis
      using sh len StackToHeap
      by (simp add: with_source_def storage_shape_def transition_source_def heap_buf_def)
  next
    case (HeapToHeap c n)
    then have "N < vl_capacity v"
      using plan_HeapD[of N "v\<lparr>vl_size := k\<rparr>" p c n] plan by simp
    then show ?thesis
      using sh len HeapToHeap
      by (simp add: with_source_def storage_shape_def transition_source_def heap_buf_def)
  next
    case (HeapToStack n)
    then have "N < vl_capacity v"
      using plan_HeapD[of N "v\<lparr>vl_size := k\<rparr>" p _ n] plan by simp
    then show ?thesis
      using sh len HeapToStack
      by (simp add: with_source_def storage_shape_def transition_source_def heap_buf_def)
  qed
qed

lemma grow_call:
  assumes N: "N < 2 ^ 31" and sh: "storage_shape N v" and b: "3 * (vl_size v + 1) < 2 ^ 64"
  shows "copies_exactly N (v\<lparr>vl_size := Suc (vl_size v)\<rparr>) (vl_size v) (vl_size v)"
    and "reads_below N (v\<lparr>vl_size := Suc (vl_size v)\<rparr>) (vl_size v) (vl_size v)"
proof -
  let ?v1 = "v\<lparr>vl_size := Suc (vl_size v)\<rparr>"
  let ?plan = "reCap_plan N ?v1 (vl_size v)"
  show ex: "copies_exactly N ?v1 (vl_size v) (vl_size v)"
    by (rule grow_copies_exactly[OF N sh b])
  show "reads_below N ?v1 (vl_size v) (vl_size v)"
  proof (rule reads_below_I[OF ex])
    fix src' :: "'a buf"
    assume len: "length src' = length (transition_source ?plan ?v1)"
    let ?w = "with_source ?plan v src'"
    note w = shape_with_source[OF sh refl len]
    have "copies_exactly N (?w\<lparr>vl_size := Suc (vl_size ?w)\<rparr>) (vl_size ?w) (vl_size ?w)"
      using b by (intro grow_copies_exactly[OF N w(1)]) (simp add: w(2))
    then show "copies_exactly N (with_source ?plan ?v1 src') (vl_size v) (vl_size v)"
      by (simp only: w(2) w(3))
  qed
qed

lemma shrink_call:
  assumes sh: "storage_shape N v" and k: "k \<le> vl_size v"
  shows "copies_exactly N (v\<lparr>vl_size := k\<rparr>) p k"
    and "reads_below N (v\<lparr>vl_size := k\<rparr>) p k"
proof -
  let ?v1 = "v\<lparr>vl_size := k\<rparr>"
  let ?plan = "reCap_plan N ?v1 p"
  show ex: "copies_exactly N ?v1 p k"
    by (rule shrink_copies_exactly[OF sh k])
  show "reads_below N ?v1 p k"
  proof (rule reads_below_I[OF ex])
    fix src' :: "'a buf"
    assume len: "length src' = length (transition_source ?plan ?v1)"
    let ?w = "with_source ?plan v src'"
    note w = shape_with_source[OF sh refl len]
    have "copies_exactly N (?w\<lparr>vl_size := k\<rparr>) p k"
      using k by (intro shrink_copies_exactly[OF w(1)]) (simp add: w(2))
    then show "copies_exactly N (with_source ?plan ?v1 src') p k"
      by (simp only: w(3))
  qed
qed

text \<open>The calls of the engine that the three operations make.\<close>

lemma push_back_engine:
  "push_back N v x =
     (case push_back_call v of (v1, prevSize) \<Rightarrow>
        then_do (reCap N v1 prevSize) (\<lambda>v2.
          then_do (store_at (data N v2) (size_t_minus (vl_size v2) 1) x)
            (\<lambda>b. Inr (set_region v2 (fst (begin_it N v2)) b))))"
  by (simp add: push_back_def data_def begin_it_def then_do_def split: prod.splits sum.splits)

lemma pop_back_engine:
  "vl_size v \<noteq> 0 \<Longrightarrow> pop_back N v = (case pop_back_call v of (v1, prevSize) \<Rightarrow> reCap N v1 prevSize)"
  by (simp add: pop_back_def)

lemma clear_engine:
  "vl_size v \<noteq> 0 \<Longrightarrow> clear N v = (case clear_call v of (v1, prevSize) \<Rightarrow> reCap N v1 prevSize)"
  by (simp add: clear_def)

text \<open>
  Claim C5. On every call of the storage-transition engine by \<open>push_back\<close> (with
  \<open>prevSize = size - 1\<close>), by \<open>pop_back\<close> (with \<open>prevSize = size + 1\<close>) and by \<open>clear\<close>
  (with the size before the clear), the engine returns, each transition it performs
  copies exactly \<open>min(prevSize, size)\<close> elements between the two arrays, and it reads no
  source slot at an index from \<open>min(prevSize, size)\<close> on. The first conjunct of each part
  says that the call is the one the operation makes. \<open>pop_back\<close> and \<open>clear\<close> call the
  engine only on a non-empty container.
\<close>

theorem reCap_copies_min:
  assumes "N < 2 ^ 31" and "storage_inv N v" and "3 * (vl_size v + 1) < 2 ^ 64"
  shows "(case push_back_call v of (v1, prevSize) \<Rightarrow>
            push_back N v x =
              then_do (reCap N v1 prevSize) (\<lambda>v2.
                then_do (store_at (data N v2) (size_t_minus (vl_size v2) 1) x)
                  (\<lambda>b. Inr (set_region v2 (fst (begin_it N v2)) b))) \<and>
            prevSize = vl_size v1 - 1 \<and>
            copies_exactly N v1 prevSize (min prevSize (vl_size v1)) \<and>
            reads_below N v1 prevSize (min prevSize (vl_size v1)) \<and>
            (copy_count (reCap_plan N v1 prevSize) = None
             \<or> copy_count (reCap_plan N v1 prevSize) = Some (min prevSize (vl_size v1))))
       \<and> (vl_size v = 0 \<or>
          (case pop_back_call v of (v1, prevSize) \<Rightarrow>
            pop_back N v = reCap N v1 prevSize \<and>
            prevSize = vl_size v1 + 1 \<and>
            copies_exactly N v1 prevSize (min prevSize (vl_size v1)) \<and>
            reads_below N v1 prevSize (min prevSize (vl_size v1)) \<and>
            (copy_count (reCap_plan N v1 prevSize) = None
             \<or> copy_count (reCap_plan N v1 prevSize) = Some (min prevSize (vl_size v1)))))
       \<and> (vl_size v = 0 \<or>
          (case clear_call v of (v1, prevSize) \<Rightarrow>
            clear N v = reCap N v1 prevSize \<and>
            prevSize = vl_size v \<and> vl_size v1 = 0 \<and>
            copies_exactly N v1 prevSize (min prevSize (vl_size v1)) \<and>
            reads_below N v1 prevSize (min prevSize (vl_size v1)) \<and>
            (copy_count (reCap_plan N v1 prevSize) = None
             \<or> copy_count (reCap_plan N v1 prevSize) = Some (min prevSize (vl_size v1)))))"
proof -
  have sh: "storage_shape N v"
    using assms(2) by (simp add: storage_inv_def)
  have lt: "vl_size v < 2 ^ 64"
    using assms(3) by simp
  have push: "push_back_call v = (v\<lparr>vl_size := Suc (vl_size v)\<rparr>, vl_size v)"
    using assms(3) by (intro push_back_call_eq) simp
  have m1: "min (vl_size v) (Suc (vl_size v)) = vl_size v"
    by simp
  note g = grow_call[OF assms(1) sh assms(3)] plan_grow[OF sh]
  have P: "case push_back_call v of (v1, prevSize) \<Rightarrow>
            push_back N v x =
              then_do (reCap N v1 prevSize) (\<lambda>v2.
                then_do (store_at (data N v2) (size_t_minus (vl_size v2) 1) x)
                  (\<lambda>b. Inr (set_region v2 (fst (begin_it N v2)) b))) \<and>
            prevSize = vl_size v1 - 1 \<and>
            copies_exactly N v1 prevSize (min prevSize (vl_size v1)) \<and>
            reads_below N v1 prevSize (min prevSize (vl_size v1)) \<and>
            (copy_count (reCap_plan N v1 prevSize) = None
             \<or> copy_count (reCap_plan N v1 prevSize) = Some (min prevSize (vl_size v1)))"
    using g push_back_engine[of N v x] by (simp add: push m1)
  show ?thesis
  proof (cases "vl_size v = 0")
    case True
    then show ?thesis using P by simp
  next
    case False
    then have pos: "0 < vl_size v" by simp
    have pop: "pop_back_call v = (v\<lparr>vl_size := vl_size v - 1\<rparr>, vl_size v)"
      using pos lt by (intro pop_back_call_eq)
    have m2: "min (vl_size v) (vl_size v - 1) = vl_size v - 1" by simp
    note s1 = shrink_call[OF sh, of "vl_size v - 1" "vl_size v"]
      plan_shrink[OF sh, of "vl_size v - 1" "vl_size v"]
    note s0 = shrink_call[OF sh, of 0 "vl_size v"] plan_shrink[OF sh, of 0 "vl_size v"]
    have Q: "case pop_back_call v of (v1, prevSize) \<Rightarrow>
            pop_back N v = reCap N v1 prevSize \<and>
            prevSize = vl_size v1 + 1 \<and>
            copies_exactly N v1 prevSize (min prevSize (vl_size v1)) \<and>
            reads_below N v1 prevSize (min prevSize (vl_size v1)) \<and>
            (copy_count (reCap_plan N v1 prevSize) = None
             \<or> copy_count (reCap_plan N v1 prevSize) = Some (min prevSize (vl_size v1)))"
      using s1 pos pop_back_engine[OF False, of N] by (simp add: pop m2)
    have R: "case clear_call v of (v1, prevSize) \<Rightarrow>
            clear N v = reCap N v1 prevSize \<and>
            prevSize = vl_size v \<and> vl_size v1 = 0 \<and>
            copies_exactly N v1 prevSize (min prevSize (vl_size v1)) \<and>
            reads_below N v1 prevSize (min prevSize (vl_size v1)) \<and>
            (copy_count (reCap_plan N v1 prevSize) = None
             \<or> copy_count (reCap_plan N v1 prevSize) = Some (min prevSize (vl_size v1)))"
      using s0 clear_engine[OF False, of N] by (simp add: clear_call_def)
    show ?thesis
      using P Q R by blast
  qed
qed

theorem reCap_copies_min_witness:
  "(4::nat) < 2 ^ 31 \<and> storage_inv 4 inline4 \<and> 3 * (vl_size inline4 + 1) < (2::nat) ^ 64
   \<and> storage_inv 4 heap5 \<and> 3 * (vl_size heap5 + 1) < (2::nat) ^ 64
   \<and> push_back_call inline4 = (inline4\<lparr>vl_size := 5\<rparr>, 4)
   \<and> reCap_plan 4 (inline4\<lparr>vl_size := 5\<rparr>) 4 = StackToHeap 7 4
   \<and> copies_exactly 4 (inline4\<lparr>vl_size := 5\<rparr>) 4 4
   \<and> reads_below 4 (inline4\<lparr>vl_size := 5\<rparr>) 4 4
   \<and> reCap 4 (inline4\<lparr>vl_size := 5\<rparr>) 4 =
       Inr \<lparr>vl_size = 5, vl_capacity = 7,
            heapArr = Some [Some 1, Some 2, Some 3, Some 4, None, None, None],
            stackArr = [Some 1, Some 2, Some 3, Some 4]\<rparr>
   \<and> pop_back_call heap5 = (heap5\<lparr>vl_size := 4\<rparr>, 5)
   \<and> reCap_plan 4 (heap5\<lparr>vl_size := 4\<rparr>) 5 = HeapToStack 4
   \<and> copies_exactly 4 (heap5\<lparr>vl_size := 4\<rparr>) 5 4
   \<and> reads_below 4 (heap5\<lparr>vl_size := 4\<rparr>) 5 4
   \<and> reCap 4 (heap5\<lparr>vl_size := 4\<rparr>) 5 =
       Inr \<lparr>vl_size = 4, vl_capacity = 4, heapArr = None,
            stackArr = [Some 1, Some 2, Some 3, Some 4]\<rparr>
   \<and> clear_call heap5 = (heap5\<lparr>vl_size := 0\<rparr>, 5)
   \<and> reCap_plan 4 (heap5\<lparr>vl_size := 0\<rparr>) 5 = HeapToStack 0
   \<and> copies_exactly 4 (heap5\<lparr>vl_size := 0\<rparr>) 5 0
   \<and> reads_below 4 (heap5\<lparr>vl_size := 0\<rparr>) 5 0"
proof -
  have h1: "(4::nat) < 2 ^ 31" by simp
  have h3: "3 * (vl_size inline4 + 1) < (2::nat) ^ 64" "3 * (vl_size heap5 + 1) < (2::nat) ^ 64"
    by (simp_all add: inline4_def heap5_def)
  have e: "push_back_call inline4 = (inline4\<lparr>vl_size := 5\<rparr>, 4)"
    "reCap_plan 4 (inline4\<lparr>vl_size := 5\<rparr>) 4 = StackToHeap 7 4"
    "pop_back_call heap5 = (heap5\<lparr>vl_size := 4\<rparr>, 5)"
    "reCap_plan 4 (heap5\<lparr>vl_size := 4\<rparr>) 5 = HeapToStack 4"
    "clear_call heap5 = (heap5\<lparr>vl_size := 0\<rparr>, 5)"
    "reCap_plan 4 (heap5\<lparr>vl_size := 0\<rparr>) 5 = HeapToStack 0"
    by (simp_all add: eval_defs inline4_def heap5_def)
  have r: "reCap 4 (inline4\<lparr>vl_size := 5\<rparr>) 4 =
       Inr \<lparr>vl_size = 5, vl_capacity = 7,
            heapArr = Some [Some 1, Some 2, Some 3, Some 4, None, None, None],
            stackArr = [Some 1, Some 2, Some 3, Some 4]\<rparr>"
    "reCap 4 (heap5\<lparr>vl_size := 4\<rparr>) 5 =
       Inr \<lparr>vl_size = 4, vl_capacity = 4, heapArr = None,
            stackArr = [Some 1, Some 2, Some 3, Some 4]\<rparr>"
    by (simp_all add: eval_defs inline4_def heap5_def)
  have s: "vl_size heap5 \<noteq> 0" "vl_size (inline4\<lparr>vl_size := 5\<rparr>) = 5"
    "vl_size (heap5\<lparr>vl_size := 4\<rparr>) = 4" "vl_size (heap5\<lparr>vl_size := 0\<rparr>) = 0"
    "min (4::nat) 5 = 4" "min (5::nat) 4 = 4" "min (5::nat) 0 = 0"
    by (simp_all add: heap5_def)
  have a: "copies_exactly 4 (inline4\<lparr>vl_size := 5\<rparr>) 4 4
           \<and> reads_below 4 (inline4\<lparr>vl_size := 5\<rparr>) 4 4"
    using reCap_copies_min[OF h1 inv_inline4 h3(1)] by (simp add: e s)
  have b: "copies_exactly 4 (heap5\<lparr>vl_size := 4\<rparr>) 5 4
           \<and> reads_below 4 (heap5\<lparr>vl_size := 4\<rparr>) 5 4
           \<and> copies_exactly 4 (heap5\<lparr>vl_size := 0\<rparr>) 5 0
           \<and> reads_below 4 (heap5\<lparr>vl_size := 0\<rparr>) 5 0"
    using reCap_copies_min[OF h1 inv_heap5 h3(2)] by (simp add: e s)
  show ?thesis
    using a b h1 h3 inv_inline4 inv_heap5 e r by blast
qed

section \<open>Checked access\<close>

lemma index_op_live:
  assumes inv: "storage_inv N v" and lt: "idx < vl_size v"
  shows "\<exists>x. index_op N v idx = Inr (Some x) \<and> contents N v ! idx = Some x"
proof -
  have sh: "storage_shape N v" and live: "list_all (\<lambda>s. s \<noteq> None) (contents N v)"
    using inv by (simp_all add: storage_inv_def)
  have len: "idx < length (data N v)"
    using shape_data_length[OF sh] shape_sizes(2)[OF sh] lt by simp
  have "idx < length (contents N v)"
    using length_contents[OF sh] lt by simp
  then have "contents N v ! idx \<noteq> None"
    using live by (simp add: list_all_length)
  then obtain x where x: "contents N v ! idx = Some x"
    by blast
  have c: "contents N v ! idx = data N v ! idx"
    using lt by (simp add: contents_def)
  have "index_op N v idx = Inr (data N v ! idx)"
    using len by (cases "N < vl_capacity v") (simp_all add: index_op_def data_def)
  then have "index_op N v idx = Inr (Some x)"
    using c x by simp
  then show ?thesis
    using x by blast
qed

lemma index_op_not_out_of_range: "index_op N v idx \<noteq> Inl (out_of_range m)"
  by (simp add: index_op_def)

text \<open>
  Claim C7, as the code has it. \<open>at(idx)\<close> fails exactly when \<open>idx >= size\<close>, with the
  \<open>std::out_of_range\<close> error whose message is the fixed text \<open>index out of range\<close>; the
  error does not carry the index. For \<open>idx < size\<close> it returns the element that
  \<open>operator[](idx)\<close> returns, which is the live element at that index. \<open>at\<close> is a function
  of the container alone and yields no new container: size, capacity and contents are
  as before the call.
\<close>

theorem at_checked:
  assumes "storage_inv N v"
  shows "(idx < vl_size v \<longrightarrow>
            (\<exists>x. at N v idx = Inr (Some x) \<and> index_op N v idx = Inr (Some x)
                 \<and> contents N v ! idx = Some x))
       \<and> (vl_size v \<le> idx \<longrightarrow> at N v idx = Inl (out_of_range ''index out of range''))
       \<and> ((\<exists>m. at N v idx = Inl (out_of_range m)) = (vl_size v \<le> idx))"
proof (cases "idx < vl_size v")
  case True
  then obtain x where "index_op N v idx = Inr (Some x)" "contents N v ! idx = Some x"
    using index_op_live[OF assms] by blast
  then show ?thesis
    using True by (simp add: at_def)
next
  case False
  then show ?thesis
    by (simp add: at_def)
qed

theorem at_checked_witness:
  "storage_inv 4 inline4
   \<and> at 4 inline4 2 = Inr (Some 3) \<and> index_op 4 inline4 2 = Inr (Some 3)
   \<and> at 4 inline4 4 = Inl (out_of_range ''index out of range'')"
proof -
  have "2 < vl_size inline4" "vl_size inline4 \<le> 4" "contents 4 inline4 ! 2 = Some 3"
    by (simp_all add: inline4_def contents_def data_def)
  then show ?thesis
    using at_checked[OF inv_inline4, of 2] at_checked[OF inv_inline4, of 4] inv_inline4
    by auto
qed

text \<open>Claim C7 as stated, with an error that carries the offending index, fails: on the
  empty container the errors for the indices 5 and 7 are the same value, so the error
  does not identify the index.\<close>

theorem at_error_without_index:
  "at 4 (VLVector 4 :: nat vlvector) 5 = at 4 (VLVector 4 :: nat vlvector) 7
   \<and> at 4 (VLVector 4 :: nat vlvector) 5 = Inl (out_of_range ''index out of range'')"
  by (simp add: at_def VLVector_def)

section \<open>erase on well-formed containers\<close>

lemma take_drop_of_take:
  "i \<le> j \<Longrightarrow> j \<le> n \<Longrightarrow>
   take i (take n xs) @ drop j (take n xs) = take i xs @ take (n - j) (drop j xs)"
  by (simp add: drop_take min_def)

lemma shifted_contents:
  assumes "i \<le> j" and "j \<le> n" and "n \<le> length b"
  shows "take (n - (j - i)) (take i b @ take (n - j) (drop j b) @ rest)
         = take i (take n b) @ drop j (take n b)"
proof -
  have "length (take i b @ take (n - j) (drop j b)) = n - (j - i)"
    using assms by simp
  then have "take (n - (j - i)) ((take i b @ take (n - j) (drop j b)) @ rest)
             = take i b @ take (n - j) (drop j b)"
    by (metis append_eq_conv_conj)
  then show ?thesis
    using take_drop_of_take[OF assms(1,2), of b] by simp
qed

lemma live_subseq:
  assumes "list_all P xs"
  shows "list_all P (take i xs @ drop j xs)"
  using assms by (auto simp: list_all_iff dest: in_set_takeD in_set_dropD)

text \<open>What \<open>erase(first, last)\<close> does to a well-formed container, for a range
  \<open>[begin + i, begin + j)\<close> within it, in each of its three branches.\<close>

lemma erase_spec:
  assumes inv: "storage_inv N v" and ij: "i \<le> j" and js: "j \<le> vl_size v"
  shows "\<exists>v'. erase N v (ptr_add (begin_it N v) i) (ptr_add (begin_it N v) j)
                 = Inr (ptr_add (begin_it N v') i, v')
            \<and> storage_inv N v' \<and> vl_size v' = vl_size v - (j - i)
            \<and> contents N v' = take i (contents N v) @ drop j (contents N v)
            \<and> (i = j \<longrightarrow> vl_capacity v' = vl_capacity v)"
proof -
  have sh: "storage_shape N v" and live: "list_all (\<lambda>s. s \<noteq> None) (contents N v)"
    using inv by (simp_all add: storage_inv_def)
  note sz = shape_sizes[OF sh]
  let ?n = "vl_size v"
  let ?n' = "vl_size v - (j - i)"
  have live': "list_all (\<lambda>s. s \<noteq> None) (take i (contents N v) @ drop j (contents N v))"
    by (rule live_subseq[OF live])
  consider (inline) "vl_capacity v = N" "?n \<le> N"
    | (to_inline) "vl_capacity v > N" "?n > N" "?n' \<le> N"
    | (stay_heap) "vl_capacity v > N" "?n > N" "?n' > N"
    using sz(1,3) by linarith
  then show ?thesis
  proof cases
    case inline
    let ?s = "stackArr v"
    let ?s' = "take i ?s @ take (?n - j) (drop j ?s) @ drop (i + (?n - j)) ?s"
    let ?v' = "v\<lparr>vl_size := ?n', stackArr := ?s'\<rparr>"
    have b: "begin_it N v = (Stack, 0)" "begin_it N ?v' = (Stack, 0)"
      using inline by (simp_all add: begin_it_def)
    have cp: "std_copy_within ?s j ?n i = Inr ?s'"
      using ij js inline sz(4) by (intro std_copy_within_eq) simp_all
    have e: "erase N v (ptr_add (begin_it N v) i) (ptr_add (begin_it N v) j)
               = Inr (ptr_add (begin_it N ?v') i, ?v')"
      using ij js inline
      by (simp add: erase_def b ptr_add_def ptr_diff_def size_t_minus_id begin_it_def
          copy_in_def region_buf_def cp set_region_def)
    have d: "data N ?v' = ?s'" "data N v = ?s"
      using inline by (simp_all add: data_def)
    have "contents N ?v' = take ?n' ?s'"
      by (simp add: contents_def d)
    also have "\<dots> = take i (take ?n ?s) @ drop j (take ?n ?s)"
      using ij js inline sz(4) by (intro shifted_contents) simp_all
    finally have c: "contents N ?v' = take i (contents N v) @ drop j (contents N v)"
      by (simp add: contents_def d)
    have "storage_shape N ?v'"
      using sh inline ij js by (simp add: storage_shape_def heap_buf_def)
    then have "storage_inv N ?v'"
      using live' by (simp add: storage_inv_def c)
    then show ?thesis
      using e c by (intro exI[of _ ?v']) simp
  next
    case to_inline
    obtain h where h: "heapArr v = Some h" "length h = vl_capacity v" "heap_buf v = h"
      using shape_heap[OF sh to_inline(1)] by blast
    let ?s = "stackArr v"
    define s1 where "s1 = take i h @ drop i ?s"
    define s2 where "s2 = take i s1 @ take (?n - j) (drop j h) @ drop (i + (?n - j)) s1"
    let ?v1 = "v\<lparr>stackArr := s1\<rparr>"
    let ?v' = "v\<lparr>stackArr := s2, vl_capacity := N, vl_size := ?n', heapArr := None\<rparr>"
    have iN: "i + (?n - j) \<le> N" "i \<le> N"
      using to_inline ij js by simp_all
    have b: "begin_it N v = (Heap, 0)" "begin_it N ?v' = (Stack, 0)"
      using to_inline by (simp_all add: begin_it_def)
    have cp1: "std_copy h 0 i ?s 0 = Inr s1"
      using std_copy_eq[of 0 i h 0 ?s] ij js iN sz(2,4) h by (simp add: s1_def)
    have len1: "length s1 = N"
      using sz(4) iN ij js sz(2) h by (simp add: s1_def)
    have t1: "take i s1 = take i h"
      using ij js sz(2) h by (simp add: s1_def)
    have cp2: "std_copy h j ?n s1 i = Inr s2"
      unfolding s2_def using ij js iN sz(2) h len1 by (intro std_copy_eq) simp_all
    have c1: "copy_in v (Heap, 0) (ptr_add (begin_it N v) i) (Stack, 0) = Inr ?v1"
      by (simp add: copy_in_def b ptr_add_def region_buf_def h cp1 set_region_def)
    have c2: "copy_in ?v1 (ptr_add (begin_it N v) j) (end_it N ?v1) (Stack, i)
                = Inr (?v1\<lparr>stackArr := s2\<rparr>)"
      using to_inline h
      by (simp add: copy_in_def b ptr_add_def end_it_def begin_it_def region_buf_def
          heap_buf_def cp2 set_region_def)
    have e: "erase N v (ptr_add (begin_it N v) i) (ptr_add (begin_it N v) j)
               = Inr (ptr_add (begin_it N ?v') i, ?v')"
      using ij js to_inline c1 c2
      by (simp add: erase_def b ptr_diff_def ptr_add_def size_t_minus_id)
    have d: "data N ?v' = s2" "data N v = h" "vl_size ?v' = ?n'"
      using to_inline h by (simp_all add: data_def)
    have "contents N ?v' = take ?n' s2"
      by (simp only: contents_def d)
    also have "\<dots> = take ?n' (take i h @ take (?n - j) (drop j h) @ drop (i + (?n - j)) s1)"
      by (simp only: s2_def t1)
    also have "\<dots> = take i (take ?n h) @ drop j (take ?n h)"
      using ij js sz(2) h by (intro shifted_contents) simp_all
    finally have c: "contents N ?v' = take i (contents N v) @ drop j (contents N v)"
      by (simp only: contents_def d)
    have "length s2 = N"
      using len1 iN ij js sz(2) h by (simp add: s2_def)
    then have "storage_shape N ?v'"
      using sh to_inline sz(5) by (simp add: storage_shape_def)
    then have "storage_inv N ?v'"
      using live' by (simp add: storage_inv_def c)
    then show ?thesis
      using e c to_inline by (intro exI[of _ ?v']) auto
  next
    case stay_heap
    obtain h where h: "heapArr v = Some h" "length h = vl_capacity v" "heap_buf v = h"
      using shape_heap[OF sh stay_heap(1)] by blast
    define h' where "h' = take i h @ take (?n - j) (drop j h) @ drop (i + (?n - j)) h"
    let ?v' = "v\<lparr>heapArr := Some h', vl_size := ?n'\<rparr>"
    have b: "begin_it N v = (Heap, 0)" "begin_it N ?v' = (Heap, 0)"
      using stay_heap by (simp_all add: begin_it_def)
    have cp: "std_copy_within h j ?n i = Inr h'"
      unfolding h'_def using ij js sz(2) h by (intro std_copy_within_eq) simp_all
    have c1: "copy_in v (ptr_add (begin_it N v) j) (end_it N v) (Heap, i)
                = Inr (v\<lparr>heapArr := Some h'\<rparr>)"
      by (simp add: copy_in_def b ptr_add_def end_it_def region_buf_def h cp set_region_def)
    have e: "erase N v (ptr_add (begin_it N v) i) (ptr_add (begin_it N v) j)
               = Inr (ptr_add (begin_it N ?v') i, ?v')"
      using ij js stay_heap c1
      by (simp add: erase_def b ptr_diff_def ptr_add_def size_t_minus_id)
    have lh: "length h' = vl_capacity v"
      using ij js sz(2) h by (simp add: h'_def)
    have d: "data N ?v' = h'" "data N v = h" "vl_size ?v' = ?n'"
      using stay_heap h by (simp_all add: data_def heap_buf_def)
    have "contents N ?v' = take ?n' h'"
      by (simp only: contents_def d)
    also have "\<dots> = take i (take ?n h) @ drop j (take ?n h)"
      unfolding h'_def using ij js sz(2) h by (intro shifted_contents) simp_all
    finally have c: "contents N ?v' = take i (contents N v) @ drop j (contents N v)"
      by (simp only: contents_def d)
    have "?n' \<le> vl_capacity v"
      using sz(2) by simp
    then have "storage_shape N ?v'"
      using sz stay_heap lh by (simp add: storage_shape_def heap_buf_def)
    then have "storage_inv N ?v'"
      using live' by (simp add: storage_inv_def c)
    then show ?thesis
      using e c by (intro exI[of _ ?v']) simp
  qed
qed

text \<open>
  Claim C4. For a well-formed range \<open>[first, last)\<close> within the container,
  \<open>erase(first, last)\<close> returns, and leaves the sequence with exactly those elements
  removed: the elements before \<open>first\<close> stay in place, the elements from \<open>last\<close> on move
  left by \<open>last - first\<close>, and the size decreases by \<open>last - first\<close>. \<open>erase(it)\<close> is
  \<open>erase(it, it + 1)\<close>. The statement is about every container that satisfies the
  representation invariant, so it covers the branch that stays inline, the branch that
  moves from the heap to the inline array, and the branch that stays on the heap.
\<close>

theorem erase_removes_range:
  assumes "storage_inv N v" and "i \<le> j" and "j \<le> vl_size v"
  shows "(\<exists>v'. erase N v (ptr_add (begin_it N v) i) (ptr_add (begin_it N v) j)
                 = Inr (ptr_add (begin_it N v') i, v')
            \<and> vl_size v' = vl_size v - (j - i)
            \<and> contents N v' = take i (contents N v) @ drop j (contents N v))
       \<and> erase_one N v it = erase N v it (ptr_add it 1)"
proof -
  have "erase_one N v it = erase N v it (ptr_add it 1)"
    by (simp add: erase_one_def)
  then show ?thesis
    using erase_spec[OF assms] by blast
qed

theorem erase_removes_range_witness:
  "storage_inv 4 inline4 \<and> storage_inv 4 heap5 \<and> storage_inv 4 heap7
   \<and> (\<exists>v'. erase 4 inline4 (Stack, 1) (Stack, 3) = Inr (ptr_add (begin_it 4 v') 1, v')
         \<and> vl_size v' = 2 \<and> contents 4 v' = [Some 1, Some 4])
   \<and> (\<exists>v'. erase 4 heap5 (Heap, 1) (Heap, 3) = Inr (ptr_add (begin_it 4 v') 1, v')
         \<and> vl_size v' = 3 \<and> contents 4 v' = [Some 1, Some 4, Some 5])
   \<and> (\<exists>v'. erase 4 heap7 (Heap, 0) (Heap, 2) = Inr (ptr_add (begin_it 4 v') 0, v')
         \<and> vl_size v' = 5 \<and> contents 4 v' = [Some 3, Some 4, Some 5, Some 6, Some 7])"
proof -
  have a: "(1::nat) \<le> 3" "3 \<le> vl_size inline4" "3 \<le> vl_size heap5"
    "(0::nat) \<le> 2" "2 \<le> vl_size heap7"
    by (simp_all add: inline4_def heap5_def heap7_def)
  have p: "ptr_add (begin_it 4 inline4) 1 = (Stack, 1)" "ptr_add (begin_it 4 inline4) 3 = (Stack, 3)"
    "ptr_add (begin_it 4 heap5) 1 = (Heap, 1)" "ptr_add (begin_it 4 heap5) 3 = (Heap, 3)"
    "ptr_add (begin_it 4 heap7) 0 = (Heap, 0)" "ptr_add (begin_it 4 heap7) 2 = (Heap, 2)"
    by (simp_all add: ptr_add_def begin_it_def inline4_def heap5_def heap7_def)
  have c: "take 1 (contents 4 inline4) @ drop 3 (contents 4 inline4) = [Some 1, Some 4]"
    "take 1 (contents 4 heap5) @ drop 3 (contents 4 heap5) = [Some 1, Some 4, Some 5]"
    "take 0 (contents 4 heap7) @ drop 2 (contents 4 heap7)
       = [Some 3, Some 4, Some 5, Some 6, Some 7]"
    by (simp_all add: contents_def data_def heap_buf_def inline4_def heap5_def heap7_def)
  have s: "vl_size inline4 - (3 - 1) = 2" "vl_size heap5 - (3 - 1) = 3"
    "vl_size heap7 - (2 - 0) = 5"
    by (simp_all add: inline4_def heap5_def heap7_def)
  have 1: "\<exists>v'. erase 4 inline4 (Stack, 1) (Stack, 3) = Inr (ptr_add (begin_it 4 v') 1, v')
         \<and> vl_size v' = 2 \<and> contents 4 v' = [Some 1, Some 4]"
    using conjunct1[OF erase_removes_range[OF inv_inline4 a(1,2), of "(Stack, 0)"]]
    by (simp only: p c s)
  have 2: "\<exists>v'. erase 4 heap5 (Heap, 1) (Heap, 3) = Inr (ptr_add (begin_it 4 v') 1, v')
         \<and> vl_size v' = 3 \<and> contents 4 v' = [Some 1, Some 4, Some 5]"
    using conjunct1[OF erase_removes_range[OF inv_heap5 a(1,3), of "(Stack, 0)"]]
    by (simp only: p c s)
  have 3: "\<exists>v'. erase 4 heap7 (Heap, 0) (Heap, 2) = Inr (ptr_add (begin_it 4 v') 0, v')
         \<and> vl_size v' = 5 \<and> contents 4 v' = [Some 3, Some 4, Some 5, Some 6, Some 7]"
    using conjunct1[OF erase_removes_range[OF inv_heap7 a(4,5), of "(Stack, 0)"]]
    by (simp only: p c s)
  show ?thesis
    using 1 2 3 inv_inline4 inv_heap5 inv_heap7 by blast
qed

section \<open>insert on well-formed containers\<close>

text \<open>Each form of \<open>insert\<close> is the shared choreography with its own writing step.\<close>

lemma insert_range_unfold:
  "insert_range N v position xs =
     then_do (VLVector_range N xs) (\<lambda>temp.
     then_do (ptr_diff position (begin_it N v)) (\<lambda>disPos.
     then_do (insert_branches N v position disPos (vl_size temp)
                (\<lambda>a d. copy_out temp (begin_it N temp) (end_it N temp) a d))
       (\<lambda>v'. then_do (clear N temp) (\<lambda>_. Inr (ptr_add (begin_it N v') (vl_size temp), v')))))"
  unfolding insert_range_def insert_branches_def Let_def by (rule refl)

lemma insert_one_unfold:
  "insert_one N v position toAdd =
     then_do (ptr_diff position (begin_it N v)) (\<lambda>disPos.
     then_do (insert_branches N v position disPos 1 (\<lambda>a d. store_at a d toAdd))
       (\<lambda>v'. Inr (ptr_add (begin_it N v') disPos, v')))"
  unfolding insert_one_def insert_branches_def Let_def by (rule refl)

lemma three_part:
  assumes "d \<le> n" and "n \<le> length src" and "d + length ys \<le> length base"
  defines "a2 \<equiv> take d base @ ys @ drop (d + length ys) base"
  defines "a3 \<equiv> take (d + length ys) a2 @ take (n - d) (drop d src)
                   @ drop (d + length ys + (n - d)) a2"
  shows "take (n + length ys) a3 = take d base @ ys @ take (n - d) (drop d src)"
    and "length a2 = length base"
    and "n + length ys \<le> length base \<Longrightarrow> length a3 = length base"
proof -
  have ld: "length (take d base) = d"
    using assms(3) by simp
  have t: "take (d + length ys) a2 = take d base @ ys"
    unfolding a2_def using ld by simp
  have l: "length (take d base @ ys @ take (n - d) (drop d src)) = n + length ys"
    using ld assms(1,2) by simp
  have "a3 = (take d base @ ys @ take (n - d) (drop d src)) @ drop (d + length ys + (n - d)) a2"
    unfolding a3_def t by simp
  then show "take (n + length ys) a3 = take d base @ ys @ take (n - d) (drop d src)"
    using l by (metis append_eq_conv_conj)
  show l2: "length a2 = length base"
    unfolding a2_def using assms(3) by simp
  show "length a3 = length base" if "n + length ys \<le> length base"
    unfolding a3_def using that l2 assms(1,2) by simp
qed

lemma live_insert:
  assumes "list_all P xs" and "list_all P ys"
  shows "list_all P (take d xs @ ys @ drop d xs)"
  using assms by (auto simp: list_all_iff dest: in_set_takeD in_set_dropD)

text \<open>
  The choreography on a well-formed container, for a position \<open>begin + d\<close> with
  \<open>d <= size\<close> and a writing step that puts the slots \<open>ys\<close> at offset \<open>d\<close>. The new
  size must fit a \<open>size_t\<close>, and its triple too when the capacity has to grow.
\<close>

lemma capfunc_static:
  assumes "N < 2 ^ 31"
  shows "capfunc s (int_of_ulong N) c =
           (if s \<le> N then N else if s \<le> c then c else (3 * s mod 2 ^ 64) div 2)"
  using assms by (simp add: capfunc_def static_conv)

lemma insert_branches_spec:
  assumes N: "N < 2 ^ 31" and inv: "storage_inv N v" and dn: "d \<le> vl_size v"
    and b1: "vl_size v + k < 2 ^ 64"
    and b2: "vl_size v + k \<le> vl_capacity v \<or> 3 * (vl_size v + k) < 2 ^ 64"
    and k: "length ys = k"
    and ys: "list_all (\<lambda>s. s \<noteq> None) ys"
    and put: "\<And>a. d + k \<le> length a \<Longrightarrow> put a d = Inr (take d a @ ys @ drop (d + k) a)"
  shows "\<exists>v'. insert_branches N v (ptr_add (begin_it N v) d) d k put = Inr v'
            \<and> storage_inv N v' \<and> vl_size v' = vl_size v + k
            \<and> contents N v' = take d (contents N v) @ ys @ drop d (contents N v)
            \<and> (k = 0 \<longrightarrow> vl_capacity v' = vl_capacity v)"
proof -
  have sh: "storage_shape N v" and live: "list_all (\<lambda>s. s \<noteq> None) (contents N v)"
    using inv by (simp_all add: storage_inv_def)
  note sz = shape_sizes[OF sh]
  let ?n = "vl_size v"
  have sp: "size_t_plus ?n k = ?n + k"
    using b1 by (rule size_t_plus_id)
  have live': "list_all (\<lambda>s. s \<noteq> None) (take d (contents N v) @ ys @ drop d (contents N v))"
    by (rule live_insert[OF live ys])
  define c where "c = capfunc (?n + k) (int_of_ulong N) (vl_capacity v)"
  have cf: "c = (if ?n + k \<le> N then N else if ?n + k \<le> vl_capacity v then vl_capacity v
                 else 3 * (?n + k) div 2)"
  proof (cases "3 * (?n + k) < 2 ^ 64")
    case True
    show ?thesis
      unfolding c_def by (rule capfunc_nat[OF N True])
  next
    case False
    then have "?n + k \<le> vl_capacity v"
      using b2 by blast
    then show ?thesis
      unfolding c_def by (simp add: capfunc_static[OF N])
  qed
  have b3: "?n + k \<le> vl_capacity v \<or> 3 * (?n + k) div 2 < 2 ^ 64"
    using b2 by auto
  consider (heap) "vl_capacity v > N" "?n > N"
    | (to_heap) "vl_capacity v = N" "?n \<le> N" "?n + k > N"
    | (stay) "vl_capacity v = N" "?n \<le> N" "?n + k \<le> N"
    using sz(1,3) by linarith
  then show ?thesis
  proof cases
    case heap
    obtain h where h: "heapArr v = Some h" "length h = vl_capacity v" "heap_buf v = h"
      using shape_heap[OF sh heap(1)] by blast
    have cb: "?n + k \<le> c" "N < c" "c < 2 ^ 64" "k = 0 \<longrightarrow> c = vl_capacity v"
      using cf heap sz(2,5) b3 by (auto split: if_splits)
    define a1 where "a1 = take d h @ replicate (c - d) (None :: 'a option)"
    define a2 where "a2 = take d a1 @ ys @ drop (d + length ys) a1"
    define a3 where "a3 = take (d + length ys) a2 @ take (?n - d) (drop d h)
                          @ drop (d + length ys + (?n - d)) a2"
    let ?v2 = "v\<lparr>vl_capacity := c, vl_size := ?n + k\<rparr>"
    let ?v' = "v\<lparr>vl_capacity := c, vl_size := ?n + k, heapArr := Some a3\<rparr>"
    have dh: "d \<le> length h" "?n \<le> length h"
      using dn sz(2) h by simp_all
    have la1: "length a1 = c"
      using dh cb dn by (simp add: a1_def)
    have tp: "take (?n + length ys) a3 = take d a1 @ ys @ take (?n - d) (drop d h)"
      "length a2 = length a1" "length a3 = length a1"
      using three_part[OF dn dh(2), of ys a1] la1 cb k dn
      by (simp_all add: a2_def a3_def)
    have cp1: "std_copy h 0 d (new_array c) 0 = Inr a1"
      using dh cb dn by (simp add: std_copy_eq new_array_def a1_def)
    have p2: "put a1 d = Inr a2"
      using put[of a1] la1 cb dn by (simp add: a2_def k)
    have cp3: "std_copy h d ?n a2 (d + k) = Inr a3"
      unfolding a3_def k[symmetric]
      using dn dh tp(2) la1 cb k by (intro std_copy_eq) simp_all
    have e: "insert_branches N v (ptr_add (begin_it N v) d) d k put = Inr ?v'"
      using heap cb
      by (simp add: insert_branches_def Let_def sp c_def[symmetric] begin_it_def ptr_add_def
          copy_out_def region_buf_def heap_buf_def h cp1 p2 cp3)
    have d: "data N ?v' = a3" "data N v = h" "vl_size ?v' = ?n + length ys"
      using heap cb h k by (simp_all add: data_def heap_buf_def)
    have "take d a1 = take d h"
      using dh by (simp add: a1_def)
    then have "contents N ?v' = take d h @ ys @ take (?n - d) (drop d h)"
      by (simp only: contents_def d tp(1))
    also have "\<dots> = take d (take ?n h) @ ys @ drop d (take ?n h)"
      using dn by (simp add: drop_take min_def)
    finally have c: "contents N ?v' = take d (contents N v) @ ys @ drop d (contents N v)"
      by (simp only: contents_def d)
    have "storage_shape N ?v'"
      using sz cb heap tp(3) la1 by (simp add: storage_shape_def heap_buf_def)
    then have "storage_inv N ?v'"
      using live' by (simp add: storage_inv_def c)
    then show ?thesis
      using e c cb(4) by (intro exI[of _ ?v']) simp
  next
    case to_heap
    let ?s = "stackArr v"
    have cb: "?n + k \<le> c" "N < c" "c < 2 ^ 64" "k \<noteq> 0"
      using cf to_heap b3 by (auto split: if_splits)
    define a1 where "a1 = take d ?s @ replicate (c - d) (None :: 'a option)"
    define a2 where "a2 = take d a1 @ ys @ drop (d + length ys) a1"
    define a3 where "a3 = take (d + length ys) a2 @ take (?n - d) (drop d ?s)
                          @ drop (d + length ys + (?n - d)) a2"
    let ?v' = "v\<lparr>vl_capacity := c, vl_size := ?n + k, heapArr := Some a3\<rparr>"
    have dh: "d \<le> length ?s" "?n \<le> length ?s"
      using dn sz(4) to_heap by simp_all
    have la1: "length a1 = c"
      using dh cb dn by (simp add: a1_def)
    have tp: "take (?n + length ys) a3 = take d a1 @ ys @ take (?n - d) (drop d ?s)"
      "length a2 = length a1" "length a3 = length a1"
      using three_part[OF dn dh(2), of ys a1] la1 cb k dn
      by (simp_all add: a2_def a3_def)
    have cp1: "std_copy ?s 0 d (new_array c) 0 = Inr a1"
      using dh cb dn by (simp add: std_copy_eq new_array_def a1_def)
    have p2: "put a1 d = Inr a2"
      using put[of a1] la1 cb dn by (simp add: a2_def k)
    have cp3: "std_copy ?s d ?n a2 (d + k) = Inr a3"
      unfolding a3_def k[symmetric]
      using dn dh tp(2) la1 cb k by (intro std_copy_eq) simp_all
    have cN: "capfunc (?n + k) (int_of_ulong N) N = c"
      using to_heap(1) by (simp add: c_def)
    have e: "insert_branches N v (ptr_add (begin_it N v) d) d k put = Inr ?v'"
      using to_heap cb
      by (simp add: insert_branches_def Let_def sp cN begin_it_def ptr_add_def
          copy_out_def region_buf_def cp1 p2 cp3)
    have d: "data N ?v' = a3" "data N v = ?s" "vl_size ?v' = ?n + length ys"
      using to_heap cb k by (simp_all add: data_def heap_buf_def)
    have "take d a1 = take d ?s"
      using dh by (simp add: a1_def)
    then have "contents N ?v' = take d ?s @ ys @ take (?n - d) (drop d ?s)"
      by (simp only: contents_def d tp(1))
    also have "\<dots> = take d (take ?n ?s) @ ys @ drop d (take ?n ?s)"
      using dn by (simp add: drop_take min_def)
    finally have c: "contents N ?v' = take d (contents N v) @ ys @ drop d (contents N v)"
      by (simp only: contents_def d)
    have "storage_shape N ?v'"
      using sz cb to_heap tp(3) la1 by (simp add: storage_shape_def heap_buf_def)
    then have "storage_inv N ?v'"
      using live' by (simp add: storage_inv_def c)
    then show ?thesis
      using e c cb(4) by (intro exI[of _ ?v']) simp
  next
    case stay
    let ?s = "stackArr v"
    have hn: "heapArr v = None"
      using sh stay by (simp add: storage_shape_def)
    define na where "na = take ?n ?s @ replicate (N - ?n) (None :: 'a option)"
    define s1 where "s1 = take d ?s @ ys @ drop (d + length ys) ?s"
    define s2 where "s2 = take (d + length ys) s1 @ take (?n - d) (drop d na)
                          @ drop (d + length ys + (?n - d)) s1"
    let ?v' = "v\<lparr>vl_size := ?n + k, stackArr := s2\<rparr>"
    have lna: "length na = N"
      using stay sz(4) by (simp add: na_def)
    have dk: "d + length ys \<le> length ?s" "?n + length ys \<le> length ?s"
      using dn stay sz(4) k by simp_all
    have tp: "take (?n + length ys) s2 = take d ?s @ ys @ take (?n - d) (drop d na)"
      "length s1 = length ?s" "length s2 = length ?s"
      using three_part[OF dn, of na ys ?s] lna stay dk
      by (simp_all add: s1_def s2_def)
    have cp1: "std_copy ?s 0 ?n (new_array N) 0 = Inr na"
      using stay sz(4) by (simp add: std_copy_eq new_array_def na_def)
    have p2: "put ?s d = Inr s1"
      using put[of ?s] dk by (simp add: s1_def k)
    have cp3: "std_copy na d ?n s1 (d + k) = Inr s2"
      unfolding s2_def k[symmetric]
      using dn lna stay tp(2) dk by (intro std_copy_eq) simp_all
    have e: "insert_branches N v (ptr_add (begin_it N v) d) d k put = Inr ?v'"
      using stay
      by (simp add: insert_branches_def Let_def sp begin_it_def ptr_add_def
          copy_out_def region_buf_def cp1 p2 cp3)
    have d: "data N ?v' = s2" "data N v = ?s" "vl_size ?v' = ?n + length ys"
      using stay k by (simp_all add: data_def)
    have "take (?n - d) (drop d na) = take (?n - d) (drop d ?s)"
      using dn stay sz(4) by (simp add: na_def drop_take min_def)
    then have "contents N ?v' = take d ?s @ ys @ take (?n - d) (drop d ?s)"
      by (simp only: contents_def d tp(1))
    also have "\<dots> = take d (take ?n ?s) @ ys @ drop d (take ?n ?s)"
      using dn by (simp add: drop_take min_def)
    finally have c: "contents N ?v' = take d (contents N v) @ ys @ drop d (contents N v)"
      by (simp only: contents_def d)
    have "storage_shape N ?v'"
      using sz stay tp(3) hn by (simp add: storage_shape_def)
    then have "storage_inv N ?v'"
      using live' by (simp add: storage_inv_def c)
    then show ?thesis
      using e c by (intro exI[of _ ?v']) simp
  qed
qed

lemma ptr_diff_begin: "ptr_diff (ptr_add (begin_it N v) d) (begin_it N v) = Inr d"
  by (simp add: ptr_diff_def ptr_add_def size_t_minus_id)

lemma copy_out_whole:
  assumes sh: "storage_shape N t" and len: "d + vl_size t \<le> length a"
  shows "copy_out t (begin_it N t) (end_it N t) a d
           = Inr (take d a @ contents N t @ drop (d + vl_size t) a)"
proof -
  have r: "region_buf t (fst (begin_it N t)) = data N t" and z: "snd (begin_it N t) = 0"
    by (simp_all add: region_buf_def begin_it_def data_def)
  have "vl_size t \<le> length (data N t)"
    using shape_data_length[OF sh] shape_sizes(2)[OF sh] by simp
  then have "std_copy (data N t) 0 (vl_size t) a d
               = Inr (take d a @ take (vl_size t) (data N t) @ drop (d + vl_size t) a)"
    using len std_copy_eq[of 0 "vl_size t" "data N t" d a] by simp
  then show ?thesis
    by (simp add: copy_out_def end_it_def ptr_add_def r z contents_def)
qed

lemma insert_range_spec:
  assumes N: "N < 2 ^ 31" and inv: "storage_inv N v" and dn: "d \<le> vl_size v"
    and b1: "vl_size v + length xs < 2 ^ 64"
    and b2: "vl_size v + length xs \<le> vl_capacity v \<or> 3 * (vl_size v + length xs) < 2 ^ 64"
    and bx: "3 * length xs < 2 ^ 64"
  shows "\<exists>v'. insert_range N v (ptr_add (begin_it N v) d) xs
                 = Inr (ptr_add (begin_it N v') (length xs), v')
            \<and> storage_inv N v' \<and> vl_size v' = vl_size v + length xs
            \<and> contents N v' = take d (contents N v) @ map Some xs @ drop d (contents N v)
            \<and> (xs = [] \<longrightarrow> vl_capacity v' = vl_capacity v)"
proof -
  obtain t where t: "VLVector_range N xs = Inr t" "storage_inv N t" "vl_size t = length xs"
    "contents N t = map Some xs"
    using VLVector_range_spec[OF N bx] by blast
  have tsh: "storage_shape N t"
    using t(2) by (simp add: storage_inv_def)
  obtain t' where t': "clear N t = Inr t'"
    using clear_spec[OF t(2)] by blast
  let ?put = "\<lambda>a d. copy_out t (begin_it N t) (end_it N t) a d"
  have put: "?put a d = Inr (take d a @ map Some xs @ drop (d + length xs) a)"
    if "d + length xs \<le> length a" for a
    using copy_out_whole[OF tsh, of d a] that by (simp add: t(3,4))
  have "list_all (\<lambda>s. s \<noteq> None) (map Some xs)"
    by (simp add: list_all_iff)
  then obtain v' where v': "insert_branches N v (ptr_add (begin_it N v) d) d (length xs) ?put = Inr v'"
    "storage_inv N v'" "vl_size v' = vl_size v + length xs"
    "contents N v' = take d (contents N v) @ map Some xs @ drop d (contents N v)"
    "length xs = 0 \<longrightarrow> vl_capacity v' = vl_capacity v"
    using insert_branches_spec[OF N inv dn b1 b2, of "map Some xs" ?put] put by auto
  have "insert_range N v (ptr_add (begin_it N v) d) xs
          = Inr (ptr_add (begin_it N v') (length xs), v')"
    by (simp add: insert_range_unfold t(1) t(3) ptr_diff_begin v'(1) t')
  then show ?thesis
    using v'(2-5) by auto
qed

lemma insert_one_spec:
  assumes N: "N < 2 ^ 31" and inv: "storage_inv N v" and dn: "d \<le> vl_size v"
    and b: "3 * (vl_size v + 1) < 2 ^ 64"
  shows "\<exists>v'. insert_one N v (ptr_add (begin_it N v) d) x = Inr (ptr_add (begin_it N v') d, v')
            \<and> storage_inv N v' \<and> vl_size v' = vl_size v + 1
            \<and> contents N v' = take d (contents N v) @ [Some x] @ drop d (contents N v)"
proof -
  let ?put = "\<lambda>a d. store_at a d x"
  have put: "?put a d = Inr (take d a @ [Some x] @ drop (d + 1) a)" if "d + 1 \<le> length a" for a
    using that by (simp add: store_at_def upd_conv_take_nth_drop)
  have b1: "vl_size v + 1 < 2 ^ 64" and
    b2: "vl_size v + 1 \<le> vl_capacity v \<or> 3 * (vl_size v + 1) < 2 ^ 64"
    using b by simp_all
  obtain v' where v': "insert_branches N v (ptr_add (begin_it N v) d) d 1 ?put = Inr v'"
    "storage_inv N v'" "vl_size v' = vl_size v + 1"
    "contents N v' = take d (contents N v) @ [Some x] @ drop d (contents N v)"
    using insert_branches_spec[OF N inv dn b1 b2, of "[Some x]" ?put] put by auto
  have "insert_one N v (ptr_add (begin_it N v) d) x = Inr (ptr_add (begin_it N v') d, v')"
    using v'(1) by (simp add: insert_one_unfold ptr_diff_begin)
  then show ?thesis
    using v'(2-4) by auto
qed

section \<open>The element sequence after insert\<close>

text \<open>
  Claim C3. For a position at offset \<open>d\<close> in \<open>[begin, end]\<close>,
  \<open>insert(position, first, last)\<close> with \<open>k = distance(first, last)\<close> returns and leaves
  the sequence: the first \<open>d\<close> elements as they were, then the \<open>k\<close> new elements in order,
  then the elements from offset \<open>d\<close> on, moved right by \<open>k\<close>; the new size is the old size
  plus \<open>k\<close>. The statement is about every container that satisfies the representation
  invariant, so it covers the branch that stays on the heap, the branch that moves from
  the inline array to the heap, and the branch that stays inline.
\<close>

theorem insert_range_sequence:
  assumes "N < 2 ^ 31" and "storage_inv N v" and "d \<le> vl_size v"
    and "3 * (vl_size v + length xs) < 2 ^ 64"
  shows "\<exists>p v'. insert_range N v (ptr_add (begin_it N v) d) xs = Inr (p, v')
            \<and> vl_size v' = vl_size v + length xs
            \<and> contents N v' = take d (contents N v) @ map Some xs @ drop d (contents N v)"
proof -
  have "vl_size v + length xs < 2 ^ 64"
    and "vl_size v + length xs \<le> vl_capacity v \<or> 3 * (vl_size v + length xs) < 2 ^ 64"
    and "3 * length xs < 2 ^ 64"
    using assms(4) by simp_all
  then show ?thesis
    using insert_range_spec[OF assms(1,2,3)] by blast
qed

theorem insert_range_sequence_witness:
  "(4::nat) < 2 ^ 31 \<and> storage_inv 4 heap7 \<and> storage_inv 4 inline4
   \<and> storage_inv 4 (VLVector 4 :: nat vlvector)
   \<and> (\<exists>p v'. insert_range 4 heap7 (Heap, 2) [8, 9] = Inr (p, v') \<and> vl_size v' = 9
         \<and> contents 4 v' = [Some 1, Some 2, Some 8, Some 9, Some 3, Some 4, Some 5,
                              Some 6, Some 7])
   \<and> (\<exists>p v'. insert_range 4 inline4 (Stack, 4) [8, 9] = Inr (p, v') \<and> vl_size v' = 6
         \<and> contents 4 v' = [Some 1, Some 2, Some 3, Some 4, Some 8, Some 9])
   \<and> (\<exists>p v'. insert_range 4 (VLVector 4) (Stack, 0) [8, 9 :: nat] = Inr (p, v')
         \<and> vl_size v' = 2 \<and> contents 4 v' = [Some 8, Some 9])"
proof -
  have N: "(4::nat) < 2 ^ 31" by simp
  have a: "2 \<le> vl_size heap7" "3 * (vl_size heap7 + length [8, 9 :: nat]) < 2 ^ 64"
    "4 \<le> vl_size inline4" "3 * (vl_size inline4 + length [8, 9 :: nat]) < 2 ^ 64"
    "0 \<le> vl_size (VLVector 4 :: nat vlvector)"
    "3 * (vl_size (VLVector 4 :: nat vlvector) + length [8, 9 :: nat]) < 2 ^ 64"
    by (simp_all add: inline4_def heap7_def VLVector_def)
  have p: "ptr_add (begin_it 4 heap7) 2 = (Heap, 2)" "ptr_add (begin_it 4 inline4) 4 = (Stack, 4)"
    "ptr_add (begin_it 4 (VLVector 4 :: nat vlvector)) 0 = (Stack, 0)"
    by (simp_all add: ptr_add_def begin_it_def inline4_def heap7_def VLVector_def)
  have c: "take 2 (contents 4 heap7) @ map Some [8, 9] @ drop 2 (contents 4 heap7)
            = [Some 1, Some 2, Some 8, Some 9, Some 3, Some 4, Some 5, Some 6, Some 7]"
    "take 4 (contents 4 inline4) @ map Some [8, 9] @ drop 4 (contents 4 inline4)
            = [Some 1, Some 2, Some 3, Some 4, Some 8, Some 9]"
    "take 0 (contents 4 (VLVector 4 :: nat vlvector)) @ map Some [8, 9]
       @ drop 0 (contents 4 (VLVector 4 :: nat vlvector)) = [Some 8, Some 9]"
    by (simp_all add: contents_def data_def heap_buf_def inline4_def heap7_def VLVector_def)
  have s: "vl_size heap7 + length [8, 9 :: nat] = 9" "vl_size inline4 + length [8, 9 :: nat] = 6"
    "vl_size (VLVector 4 :: nat vlvector) + length [8, 9 :: nat] = 2"
    by (simp_all add: inline4_def heap7_def VLVector_def)
  have 1: "\<exists>p v'. insert_range 4 heap7 (Heap, 2) [8, 9] = Inr (p, v') \<and> vl_size v' = 9
         \<and> contents 4 v' = [Some 1, Some 2, Some 8, Some 9, Some 3, Some 4, Some 5,
                              Some 6, Some 7]"
    using insert_range_sequence[OF N inv_heap7 a(1,2)] by (simp only: p c s)
  have 2: "\<exists>p v'. insert_range 4 inline4 (Stack, 4) [8, 9] = Inr (p, v') \<and> vl_size v' = 6
         \<and> contents 4 v' = [Some 1, Some 2, Some 3, Some 4, Some 8, Some 9]"
    using insert_range_sequence[OF N inv_inline4 a(3,4)] by (simp only: p c s)
  have 3: "\<exists>p v'. insert_range 4 (VLVector 4) (Stack, 0) [8, 9 :: nat] = Inr (p, v')
         \<and> vl_size v' = 2 \<and> contents 4 v' = [Some 8, Some 9]"
    using insert_range_sequence[OF N inv_init[OF N] a(5,6)] by (simp only: p c s)
  show ?thesis
    using N 1 2 3 inv_heap7 inv_inline4 inv_init[OF N, where ?'a = nat] by blast
qed

section \<open>The iterator returned by insert\<close>

text \<open>
  Claim C2 says that both forms of \<open>insert\<close> return an iterator to the first inserted
  element, at offset \<open>position - begin()\<close> from the new \<open>begin()\<close>. The single-element
  form does (\<open>insert_one_spec\<close>); the range form returns \<open>begin() + numAdd\<close>. Inserting
  the two elements 8, 9 at the front of the container 1, 2, 3, 4 returns the iterator
  at offset 2 of the new heap array, where the old first element now is; inserting the
  single element 8 there returns offset 0.
\<close>

theorem insert_range_returns_begin_plus_numAdd:
  "insert_range 4 inline4 (Stack, 0) [8, 9] =
     Inr ((Heap, 2),
          \<lparr>vl_size = 6, vl_capacity = 9,
           heapArr = Some [Some 8, Some 9, Some 1, Some 2, Some 3, Some 4, None, None, None],
           stackArr = [Some 1, Some 2, Some 3, Some 4]\<rparr>)
   \<and> insert_one 4 inline4 (Stack, 0) 8 =
     Inr ((Heap, 0),
          \<lparr>vl_size = 5, vl_capacity = 7,
           heapArr = Some [Some 8, Some 1, Some 2, Some 3, Some 4, None, None],
           stackArr = [Some 1, Some 2, Some 3, Some 4]\<rparr>)"
  by (simp add: insert_range_def insert_one_def VLVector_range_def eval_defs inline4_def Let_def)

section \<open>Empty ranges\<close>

text \<open>
  Claim C9. Erasing an empty range (\<open>first == last\<close>) and inserting zero elements (the
  range form with \<open>first == last\<close>) each return and leave the size, the capacity and the
  element contents of the container unchanged.
\<close>

theorem empty_range_no_change:
  assumes "N < 2 ^ 31" and "storage_inv N v" and "d \<le> vl_size v"
  shows "(\<exists>p v'. erase N v (ptr_add (begin_it N v) d) (ptr_add (begin_it N v) d) = Inr (p, v')
            \<and> vl_size v' = vl_size v \<and> capacity v' = capacity v
            \<and> contents N v' = contents N v)
       \<and> (\<exists>p v'. insert_range N v (ptr_add (begin_it N v) d) [] = Inr (p, v')
            \<and> vl_size v' = vl_size v \<and> capacity v' = capacity v
            \<and> contents N v' = contents N v)"
proof -
  have sh: "storage_shape N v"
    using assms(2) by (simp add: storage_inv_def)
  have lt: "vl_size v < 2 ^ 64"
    using shape_sizes(2,5)[OF sh] by simp
  obtain v1 where v1: "erase N v (ptr_add (begin_it N v) d) (ptr_add (begin_it N v) d)
                         = Inr (ptr_add (begin_it N v1) d, v1)"
    "vl_size v1 = vl_size v - (d - d)"
    "contents N v1 = take d (contents N v) @ drop d (contents N v)"
    "vl_capacity v1 = vl_capacity v"
    using erase_spec[OF assms(2) order_refl assms(3)] by auto
  have b: "vl_size v + length ([] :: 'a list) < 2 ^ 64"
    "vl_size v + length ([] :: 'a list) \<le> vl_capacity v
      \<or> 3 * (vl_size v + length ([] :: 'a list)) < 2 ^ 64"
    "3 * length ([] :: 'a list) < 2 ^ 64"
    using lt shape_sizes(2)[OF sh] by simp_all
  obtain v2 where v2: "insert_range N v (ptr_add (begin_it N v) d) []
                         = Inr (ptr_add (begin_it N v2) (length ([] :: 'a list)), v2)"
    "vl_size v2 = vl_size v + length ([] :: 'a list)"
    "contents N v2 = take d (contents N v) @ map Some [] @ drop d (contents N v)"
    "vl_capacity v2 = vl_capacity v"
    using insert_range_spec[OF assms b] by auto
  have 1: "\<exists>p v'. erase N v (ptr_add (begin_it N v) d) (ptr_add (begin_it N v) d) = Inr (p, v')
            \<and> vl_size v' = vl_size v \<and> capacity v' = capacity v
            \<and> contents N v' = contents N v"
    using v1 by (intro exI[of _ "ptr_add (begin_it N v1) d"] exI[of _ v1])
      (simp add: capacity_def)
  have 2: "\<exists>p v'. insert_range N v (ptr_add (begin_it N v) d) [] = Inr (p, v')
            \<and> vl_size v' = vl_size v \<and> capacity v' = capacity v
            \<and> contents N v' = contents N v"
    using v2 by (intro exI[of _ "ptr_add (begin_it N v2) (length ([] :: 'a list))"] exI[of _ v2])
      (simp add: capacity_def)
  show ?thesis
    using 1 2 by (rule conjI)
qed

theorem empty_range_no_change_witness:
  "(4::nat) < 2 ^ 31 \<and> storage_inv 4 heap5
   \<and> (\<exists>p v'. erase 4 heap5 (Heap, 3) (Heap, 3) = Inr (p, v')
         \<and> vl_size v' = 5 \<and> capacity v' = 7
         \<and> contents 4 v' = [Some 1, Some 2, Some 3, Some 4, Some 5])
   \<and> (\<exists>p v'. insert_range 4 heap5 (Heap, 3) [] = Inr (p, v')
         \<and> vl_size v' = 5 \<and> capacity v' = 7
         \<and> contents 4 v' = [Some 1, Some 2, Some 3, Some 4, Some 5])"
proof -
  have N: "(4::nat) < 2 ^ 31" by simp
  have a: "3 \<le> vl_size heap5"
    by (simp add: heap5_def)
  have e: "ptr_add (begin_it 4 heap5) 3 = (Heap, 3)" "vl_size heap5 = 5" "capacity heap5 = 7"
    "contents 4 heap5 = [Some 1, Some 2, Some 3, Some 4, Some 5]"
    by (simp_all add: ptr_add_def begin_it_def heap5_def capacity_def contents_def data_def
        heap_buf_def)
  show ?thesis
    using empty_range_no_change[OF N inv_heap5 a] N inv_heap5 by (simp only: e)
qed

section \<open>Copy construction and copy assignment\<close>

lemma VLVector_copy_spec:
  assumes N: "N < 2 ^ 31" and inv: "storage_inv N other" and b: "3 * vl_size other < 2 ^ 64"
  shows "\<exists>t. VLVector_copy N other = Inr t \<and> storage_inv N t \<and> vl_size t = vl_size other
            \<and> contents N t = contents N other"
proof -
  have sh: "storage_shape N other" and live: "list_all (\<lambda>s. s \<noteq> None) (contents N other)"
    using inv by (simp_all add: storage_inv_def)
  have r: "region_buf other (fst (begin_it N other)) = data N other"
    and z: "snd (begin_it N other) = 0"
    by (simp_all add: region_buf_def begin_it_def data_def)
  have le: "vl_size other \<le> length (data N other)"
    using shape_data_length[OF sh] shape_sizes(2)[OF sh] by simp
  let ?xs = "map the (contents N other)"
  have rd: "read_range other (begin_it N other) (end_it N other) = Inr ?xs"
    using le live by (simp add: read_range_def end_it_def ptr_add_def r z contents_def)
  have lx: "length ?xs = vl_size other"
    using length_contents[OF sh] by simp
  have sx: "map Some ?xs = contents N other"
    using live by (simp add: list_all_iff map_idI)
  obtain t where "VLVector_range N ?xs = Inr t" "storage_inv N t" "vl_size t = length ?xs"
    "contents N t = map Some ?xs"
    using VLVector_range_spec[OF N, of ?xs] b lx by auto
  then show ?thesis
    using rd lx sx by (simp add: VLVector_copy_def)
qed

text \<open>Between two different objects the assignment does not return, whatever the number
  of nested calls allowed: each call makes the next one, on a new temporary.\<close>

lemma operator_assign_diverges:
  assumes N: "N < 2 ^ 31"
  shows "this < length mem \<Longrightarrow> rhs < length mem \<Longrightarrow> rhs \<noteq> this \<Longrightarrow>
    list_all (storage_inv N) mem \<Longrightarrow> 3 * vl_size (mem ! rhs) < 2 ^ 64 \<Longrightarrow>
    operator_assign N fuel mem this rhs = None"
proof (induction fuel arbitrary: mem rhs)
  case 0
  show ?case by simp
next
  case (Suc fuel)
  have invs: "storage_inv N (mem ! this)" "storage_inv N (mem ! rhs)"
    using Suc.prems(1,2,4) by (simp_all add: list_all_length)
  obtain cleared where cl: "clear N (mem ! this) = Inr cleared" "storage_inv N cleared"
    using clear_spec[OF invs(1)] by blast
  let ?mem1 = "mem[this := cleared]"
  have r1: "?mem1 ! rhs = mem ! rhs"
    using Suc.prems(3) by simp
  obtain temp where tp: "VLVector_copy N (mem ! rhs) = Inr temp" "storage_inv N temp"
    "vl_size temp = vl_size (mem ! rhs)"
    using VLVector_copy_spec[OF N invs(2) Suc.prems(5)] by blast
  have "list_all (storage_inv N) ?mem1"
    using Suc.prems(4) cl(2)
    by (auto simp: list_all_iff dest!: subsetD[OF set_update_subset_insert])
  then have all1: "list_all (storage_inv N) (?mem1 @ [temp])"
    using tp(2) by simp
  have nt: "(?mem1 @ [temp]) ! length ?mem1 = temp"
    by (simp only: nth_append_length)
  have "operator_assign N fuel (?mem1 @ [temp]) this (length ?mem1) = None"
  proof (rule Suc.IH)
    show "this < length (?mem1 @ [temp])" "length ?mem1 < length (?mem1 @ [temp])"
      "length ?mem1 \<noteq> this"
      using Suc.prems(1) by simp_all
    show "list_all (storage_inv N) (?mem1 @ [temp])"
      by (rule all1)
    show "3 * vl_size ((?mem1 @ [temp]) ! length ?mem1) < 2 ^ 64"
      unfolding nt using Suc.prems(5) tp(3) by simp
  qed
  then show ?case
    using Suc.prems(1,2,3) by (simp add: cl(1) r1 tp(1) Let_def)
qed

lemma operator_assign_self: "operator_assign N (Suc fuel) mem a a = Some (Inr mem)"
  by simp

text \<open>Under the other reading of the guard the assignment does not return either, when
  the right-hand side is not empty and differs from \<open>*this\<close> in size: after the first
  \<open>clear\<close> the destination is empty and every temporary has the size of \<open>rhs\<close>.\<close>

lemma operator_assign_eq_diverges:
  assumes N: "N < 2 ^ 31"
  shows "this < length mem \<Longrightarrow> rhs < length mem \<Longrightarrow> rhs \<noteq> this \<Longrightarrow>
    list_all (storage_inv N) mem \<Longrightarrow> 3 * vl_size (mem ! rhs) < 2 ^ 64 \<Longrightarrow>
    vl_size (mem ! rhs) \<noteq> 0 \<Longrightarrow> vl_size (mem ! rhs) \<noteq> vl_size (mem ! this) \<Longrightarrow>
    operator_assign_eq N fuel mem this rhs = None"
proof (induction fuel arbitrary: mem rhs)
  case 0
  show ?case by simp
next
  case (Suc fuel)
  have invs: "storage_inv N (mem ! this)" "storage_inv N (mem ! rhs)"
    using Suc.prems(1,2,4) by (simp_all add: list_all_length)
  have ne: "\<not> equal_op N (mem ! rhs) (mem ! this)"
    using Suc.prems(7) by (simp add: equal_op_def)
  obtain cleared where cl: "clear N (mem ! this) = Inr cleared" "storage_inv N cleared"
    "vl_size cleared = 0"
    using clear_spec[OF invs(1)] by blast
  let ?mem1 = "mem[this := cleared]"
  have r1: "?mem1 ! rhs = mem ! rhs"
    using Suc.prems(3) by simp
  obtain temp where tp: "VLVector_copy N (mem ! rhs) = Inr temp" "storage_inv N temp"
    "vl_size temp = vl_size (mem ! rhs)"
    using VLVector_copy_spec[OF N invs(2) Suc.prems(5)] by blast
  have "list_all (storage_inv N) ?mem1"
    using Suc.prems(4) cl(2)
    by (auto simp: list_all_iff dest!: subsetD[OF set_update_subset_insert])
  then have all1: "list_all (storage_inv N) (?mem1 @ [temp])"
    using tp(2) by simp
  have nt: "(?mem1 @ [temp]) ! length ?mem1 = temp"
    by (simp only: nth_append_length)
  have th: "(?mem1 @ [temp]) ! this = cleared"
    using Suc.prems(1) by (simp add: nth_append)
  have "operator_assign_eq N fuel (?mem1 @ [temp]) this (length ?mem1) = None"
  proof (rule Suc.IH)
    show "this < length (?mem1 @ [temp])" "length ?mem1 < length (?mem1 @ [temp])"
      "length ?mem1 \<noteq> this"
      using Suc.prems(1) by simp_all
    show "list_all (storage_inv N) (?mem1 @ [temp])"
      by (rule all1)
    show "3 * vl_size ((?mem1 @ [temp]) ! length ?mem1) < 2 ^ 64"
      unfolding nt using Suc.prems(5) tp(3) by simp
    show "vl_size ((?mem1 @ [temp]) ! length ?mem1) \<noteq> 0"
      unfolding nt using Suc.prems(6) tp(3) by simp
    show "vl_size ((?mem1 @ [temp]) ! length ?mem1) \<noteq> vl_size ((?mem1 @ [temp]) ! this)"
      unfolding nt th using Suc.prems(6) tp(3) cl(3) by simp
  qed
  then show ?case
    using Suc.prems(1,2,3) ne by (simp add: cl(1) r1 tp(1) Let_def)
qed

text \<open>
  Claim C1 says that \<open>a = b\<close> terminates and leaves \<open>a\<close> equal to \<open>b\<close>. For two different
  objects it does not return: here \<open>a\<close> holds 1, 2, 3, 4 and \<open>b\<close> holds 1, 2, 3, 4, 5, and
  no number of nested calls is enough, under either reading of the guard. With the guard
  read as the comparison of addresses, the self-assignment \<open>a = a\<close> returns at once and
  changes nothing.
\<close>

theorem operator_assign_no_return:
  "operator_assign 4 fuel [inline4, heap5] 0 1 = None
   \<and> operator_assign_eq 4 fuel [inline4, heap5] 0 1 = None
   \<and> operator_assign 4 (Suc fuel) [inline4, heap5] 0 0 = Some (Inr [inline4, heap5])"
proof -
  have N: "(4::nat) < 2 ^ 31" by simp
  have a: "list_all (storage_inv 4) [inline4, heap5]"
    using inv_inline4 inv_heap5 by simp
  have b: "3 * vl_size ([inline4, heap5] ! 1) < 2 ^ 64"
    "vl_size ([inline4, heap5] ! 1) \<noteq> 0"
    "vl_size ([inline4, heap5] ! 1) \<noteq> vl_size ([inline4, heap5] ! 0)"
    by (simp_all add: heap5_def inline4_def)
  have "operator_assign 4 fuel [inline4, heap5] 0 1 = None"
    using a b(1) by (intro operator_assign_diverges[OF N]) simp_all
  moreover have "operator_assign_eq 4 fuel [inline4, heap5] 0 1 = None"
    using a b by (intro operator_assign_eq_diverges[OF N]) simp_all
  ultimately show ?thesis
    by simp
qed

section \<open>The representation invariant on every reachable container\<close>

lemma write_inv:
  assumes inv: "storage_inv N v" and i: "i < vl_size v"
    and st: "store_at (data N v) i x = Inr b"
  shows "storage_inv N (set_region v (fst (begin_it N v)) b)"
proof -
  have sh: "storage_shape N v" and live: "list_all (\<lambda>s. s \<noteq> None) (contents N v)"
    using inv by (simp_all add: storage_inv_def)
  have b: "b = (data N v)[i := Some x]"
    using st by (simp add: store_at_def split: if_splits)
  then have len: "length b = vl_capacity v"
    using shape_data_length[OF sh] by simp
  note w = write_data[OF sh len]
  have "contents N (set_region v (fst (begin_it N v)) b) = take (vl_size v) b"
    by (simp only: contents_def w)
  also have "\<dots> = (contents N v)[i := Some x]"
    by (simp add: b contents_def take_update_swap)
  finally have "contents N (set_region v (fst (begin_it N v)) b) = (contents N v)[i := Some x]" .
  moreover have "list_all (\<lambda>s. s \<noteq> None) ((contents N v)[i := Some x])"
    using live by (auto simp: list_all_iff dest!: subsetD[OF set_update_subset_insert])
  ultimately show ?thesis
    using w(1) by (simp add: storage_inv_def)
qed

lemma reachable_inv:
  assumes N: "N < 2 ^ 31" and r: "reachable N v"
  shows "storage_inv N v"
  using r
proof (induction rule: reachable.induct)
  case r_default
  show ?case by (rule inv_init[OF N])
next
  case (r_range xs v)
  then show ?case
    using VLVector_range_spec[OF N, of xs] by auto
next
  case (r_copy other v)
  then show ?case
    using VLVector_copy_spec[OF N, of other] by auto
next
  case (r_assign a b fuel mem)
  have "operator_assign N fuel [a, b] 0 1 = None"
    using r_assign.IH r_assign.hyps(3) by (intro operator_assign_diverges[OF N]) simp_all
  then show ?case
    using r_assign.hyps(4) by simp
next
  case (r_self_assign a fuel mem)
  then show ?case
    by (cases fuel) auto
next
  case (r_push_back v x v')
  then show ?case
    using push_back_spec[OF N, of v x] by auto
next
  case (r_pop_back v v')
  then show ?case
    using pop_back_spec[of N v] by auto
next
  case (r_clear v v')
  then show ?case
    using clear_spec[of N v] by auto
next
  case (r_write v i x b)
  show ?case
    by (rule write_inv[OF r_write.IH r_write.hyps(2,3)])
next
  case (r_insert_range v d xs p v')
  have "vl_size v + length xs < 2 ^ 64"
    and "vl_size v + length xs \<le> vl_capacity v \<or> 3 * (vl_size v + length xs) < 2 ^ 64"
    and "3 * length xs < 2 ^ 64"
    using r_insert_range.hyps(3) by simp_all
  then show ?case
    using insert_range_spec[OF N r_insert_range.IH r_insert_range.hyps(2), of xs]
      r_insert_range.hyps(4) by auto
next
  case (r_insert_one v d x p v')
  then show ?case
    using insert_one_spec[OF N, of v d x] by auto
next
  case (r_erase v i j p v')
  then show ?case
    using erase_spec[of N v i j] by auto
next
  case (r_erase_one v i p v')
  have "ptr_add (ptr_add (begin_it N v) i) 1 = ptr_add (begin_it N v) (i + 1)"
    by (simp add: ptr_add_def)
  then have "erase N v (ptr_add (begin_it N v) i) (ptr_add (begin_it N v) (i + 1)) = Inr (p, v')"
    using r_erase_one.hyps(3) by (simp add: erase_one_def)
  then show ?case
    using erase_spec[OF r_erase_one.IH, of i "i + 1"] r_erase_one.hyps(2) by auto
qed

text \<open>
  Claim C6. After every public operation has returned, the capacity is at least \<open>N\<close>;
  the container is on its inline array, with capacity exactly \<open>N\<close>, exactly when its size
  is at most \<open>N\<close>; and it is on the heap array, with a capacity above \<open>N\<close> and the live
  elements in that array, exactly when its size exceeds \<open>N\<close>. So the test \<open>size <= N\<close>
  with which \<open>erase\<close> chooses its branch agrees with the test \<open>capacity > N\<close> that selects
  the array everywhere else.
\<close>

theorem reachable_storage:
  assumes "N < 2 ^ 31" and "reachable N v"
  shows "N \<le> capacity v
       \<and> (vl_size v \<le> N) = (capacity v = N \<and> begin_it N v = (Stack, 0))
       \<and> (N < vl_size v) = (N < capacity v \<and> begin_it N v = (Heap, 0) \<and> heapArr v \<noteq> None
                              \<and> contents N v = take (vl_size v) (heap_buf v))
       \<and> vl_size v \<le> length (data N v)
       \<and> list_all (\<lambda>s. s \<noteq> None) (contents N v)
       \<and> (vl_size v \<le> N) = (\<not> N < capacity v)
       \<and> storage_inv N v"
proof -
  have inv: "storage_inv N v"
    by (rule reachable_inv[OF assms])
  then have sh: "storage_shape N v" and live: "list_all (\<lambda>s. s \<noteq> None) (contents N v)"
    by (simp_all add: storage_inv_def)
  note sz = shape_sizes[OF sh]
  have 1: "N \<le> capacity v"
    using sz(1) by (simp add: capacity_def)
  have 2: "(vl_size v \<le> N) = (capacity v = N \<and> begin_it N v = (Stack, 0))"
    using sz(3) by (auto simp: capacity_def begin_it_def)
  have 3: "(N < vl_size v) = (N < capacity v \<and> begin_it N v = (Heap, 0) \<and> heapArr v \<noteq> None
                              \<and> contents N v = take (vl_size v) (heap_buf v))"
    using sz(1,3) sh
    by (auto simp: capacity_def begin_it_def contents_def data_def storage_shape_def)
  have 4: "vl_size v \<le> length (data N v)"
    using shape_data_length[OF sh] sz(2) by simp
  have 5: "(vl_size v \<le> N) = (\<not> N < capacity v)"
    using sz(1,3) by (auto simp: capacity_def)
  show ?thesis
    using 1 2 3 4 5 live inv by blast
qed

theorem reachable_storage_witness:
  "(4::nat) < 2 ^ 31 \<and> reachable 4 heap5
   \<and> 4 \<le> capacity heap5 \<and> 4 < vl_size heap5 \<and> 4 < capacity heap5
   \<and> begin_it 4 heap5 = (Heap, 0) \<and> storage_inv 4 heap5"
proof -
  have N: "(4::nat) < 2 ^ 31" by simp
  have "VLVector_range 4 [1, 2, 3, 4, 5] = Inr heap5"
    by (simp add: VLVector_range_def eval_defs heap5_def)
  moreover have "3 * length [1, 2, 3, 4, 5 :: nat] < 2 ^ 64"
    by simp
  ultimately have r: "reachable 4 heap5"
    by (intro reachable.r_range[of "[1, 2, 3, 4, 5]"])
  have "4 < vl_size heap5"
    by (simp add: heap5_def)
  then show ?thesis
    using reachable_storage[OF N r] N r by simp
qed

end
